theory Spec2Isabelle
  imports Complex_Main
begin

section \<open>The multifractal spectrum estimator of mfanalysis/mfspectrum.py\<close>

text \<open>
  The class \<open>MultifractalSpectrum\<close> computes, from a multiresolution quantity, two
  matrices of statistics \<open>U\<close> and \<open>V\<close> (one row per scale, one column per moment
  order) and then, for each moment order, two linear regressions over a window of rows.

  Numbers: numpy's floating-point values are idealised as the reals. Rounding and the
  non-finite values (\<open>inf\<close>, \<open>nan\<close>) that numpy produces on a division by zero or on
  the logarithm of zero are not represented: where numpy yields a non-finite value, the
  model yields the value HOL gives to the expression (\<open>x / 0 = 0\<close>, \<open>ln 0 = 0\<close>).
  The theorems below are therefore about which quantities are computed, stored, passed
  to the regression and returned, and about identities of real arithmetic; none of them
  states that a floating-point result has an exact value.
  Python's integers are \<open>int\<close>.

  Exceptions are values: every function that can raise returns \<open>error + 'a\<close>.
\<close>

subsection \<open>Errors\<close>

text \<open>
  \<open>KeyError\<close> is what a Python dictionary lookup raises on a missing key. The other
  three are the error kinds the specification names; the code of mfspectrum.py raises
  none of them itself, they can only come out of the regression routine.
\<close>

datatype error =
    KeyError int
  | InvalidRangeError
  | EmptyMomentSetError
  | DegenerateRegressionError

subsection \<open>Data\<close>

text \<open>
  \<open>WaveletParameters = namedtuple('WaveletParameters', 'j1 j2 wtype')\<close>.
  \<open>wtype\<close> is an integer in the source: 1 selects the weighted regression, every
  other value the ordinary one.
\<close>

record WaveletParameters =
  j1 :: int
  j2 :: int
  wtype :: int

text \<open>
  The multiresolution quantity, as mfspectrum.py reads it: \<open>mrq.name\<close>, the dictionary
  \<open>mrq.nj\<close> (scale to number of coefficients) and the dictionary \<open>mrq.values\<close>
  (scale to coefficients). The order of the keys of \<open>mrq.values\<close> matters
  (\<open>list(mrq.values)\<close> fixes the rows of \<open>U\<close> and \<open>V\<close>), so it is an association list
  (the field is \<open>values_of\<close>, \<open>values\<close> being a keyword of Isabelle);
  \<open>mrq.nj\<close> is only ever looked up, so it is a map. A Python dictionary holds a key
  once; in an association list with a repeated key the lookup \<open>map_of\<close> finds the
  first entry.
\<close>

record MultiResolutionQuantity =
  name :: string
  nj :: "int \<rightharpoonup> int"
  values_of :: "(int \<times> real list) list"

type_synonym matrix = "real list list"

text \<open>
  The attributes of a \<open>MultifractalSpectrum\<close> object. \<open>Dq\<close> and \<open>hq\<close> are \<open>None\<close>
  until \<open>_compute\<close> sets them; \<open>U\<close> and \<open>V\<close> do not exist until \<open>_compute\<close> sets
  them (\<open>None\<close> here).
\<close>

record MultifractalSpectrum =
  mrq :: MultiResolutionQuantity
  j :: "int list"
  q :: "real list"
  Dq :: "real list option"
  hq :: "real list option"
  wt_param :: WaveletParameters
  U :: "matrix option"
  V :: "matrix option"

type_synonym regression = "real list \<Rightarrow> real list \<Rightarrow> real list \<Rightarrow> error + real \<times> real"

subsection \<open>Python and numpy primitives\<close>

definition dict_get :: "('k \<rightharpoonup> 'v) \<Rightarrow> ('k \<Rightarrow> error) \<Rightarrow> 'k \<Rightarrow> error + 'v" where
  "dict_get d err k = (case d k of None \<Rightarrow> Inl (err k) | Some v \<Rightarrow> Inr v)"

text \<open>\<open>list(d)\<close>: the keys of a dictionary, in order.\<close>

definition keys :: "('k \<times> 'v) list \<Rightarrow> 'k list" where
  "keys d = map fst d"

text \<open>\<open>np.zeros((r, c))\<close> and \<open>np.zeros(n)\<close>, \<open>np.ones(n)\<close>.\<close>

definition np_zeros2 :: "nat \<Rightarrow> nat \<Rightarrow> matrix" where
  "np_zeros2 r c = replicate r (replicate c 0)"

definition np_zeros :: "nat \<Rightarrow> real list" where
  "np_zeros n = replicate n 0"

definition np_ones :: "nat \<Rightarrow> real list" where
  "np_ones n = replicate n 1"

text \<open>\<open>M[i, k] = v\<close>; the indices the loops produce are always in range.\<close>

definition set2 :: "matrix \<Rightarrow> nat \<Rightarrow> nat \<Rightarrow> real \<Rightarrow> matrix" where
  "set2 M i k v = M[i := (M ! i)[k := v]]"

definition np_abs :: "real list \<Rightarrow> real list" where
  "np_abs xs = map abs xs"

text \<open>
  \<open>np.power(x, q)\<close> on a non-negative base: \<open>x ** 0\<close> is 1 for every \<open>x\<close>
  (also for 0), \<open>0 ** q\<close> is 0 for positive \<open>q\<close>; \<open>0 ** q\<close> for negative \<open>q\<close> is
  \<open>inf\<close> in numpy and outside the model (0 here).
\<close>

definition power_elem :: "real \<Rightarrow> real \<Rightarrow> real" where
  "power_elem x p = (if p = 0 then 1 else x powr p)"

definition np_power :: "real list \<Rightarrow> real \<Rightarrow> real list" where
  "np_power xs p = map (\<lambda>x. power_elem x p) xs"

definition np_log2 :: "real list \<Rightarrow> real list" where
  "np_log2 xs = map (log 2) xs"

definition np_sum :: "real list \<Rightarrow> real" where
  "np_sum xs = sum_list xs"

text \<open>\<open>xs / s\<close> with a scalar \<open>s\<close>, and \<open>xs * ys\<close> element by element.\<close>

definition np_div :: "real list \<Rightarrow> real \<Rightarrow> real list" where
  "np_div xs s = map (\<lambda>x. x / s) xs"

definition np_mul :: "real list \<Rightarrow> real list \<Rightarrow> real list" where
  "np_mul xs ys = map2 (*) xs ys"

text \<open>\<open>np.arange(a, b)\<close> on integers, and \<open>range(a, b)\<close>.\<close>

definition np_arange :: "int \<Rightarrow> int \<Rightarrow> int list" where
  "np_arange a b = [a..b - 1]"

text \<open>
  A Python slice \<open>xs[start:stop]\<close>: a negative bound counts from the end, and both
  bounds are clipped to the length.
\<close>

definition slice_index :: "int \<Rightarrow> nat \<Rightarrow> nat" where
  "slice_index i n = (if i < 0 then nat (max 0 (i + int n)) else min (nat i) n)"

definition py_slice :: "'a list \<Rightarrow> int \<Rightarrow> int \<Rightarrow> 'a list" where
  "py_slice xs start stop =
     (let a = slice_index start (length xs); b = slice_index stop (length xs)
      in take (b - a) (drop a xs))"

text \<open>\<open>M[a:b, k]\<close>: column \<open>k\<close> of the rows \<open>a:b\<close>.\<close>

definition slice_col :: "matrix \<Rightarrow> int \<Rightarrow> int \<Rightarrow> nat \<Rightarrow> real list" where
  "slice_col M a b k = map (\<lambda>row. row ! k) (py_slice M a b)"

subsection \<open>The statistics loop (lines 47 to 61)\<close>

text \<open>
  The inner loop \<open>for ind_q, qq in enumerate(self.q)\<close> at one scale: \<open>n\<close> is
  \<open>self.mrq.nj[j]\<close>, \<open>m\<close> is \<open>np.abs(self.mrq.values[j])\<close>. The power, the
  division, the logarithm and the sums are those of the reals, where lines 56 to 61
  compute in doubles.
\<close>

fun q_loop :: "int \<Rightarrow> real list \<Rightarrow> nat \<Rightarrow> (nat \<times> real) list \<Rightarrow> matrix \<times> matrix
    \<Rightarrow> matrix \<times> matrix" where
  "q_loop n m ind_j [] (Um, Vm) = (Um, Vm)"
| "q_loop n m ind_j ((ind_q, qq) # rest) (Um, Vm) =
     (let temp = np_power m qq;
          R_q_j = np_div temp (np_sum temp);
          Vm' = set2 Vm ind_j ind_q (np_sum (np_mul R_q_j (np_log2 m)));
          Um' = set2 Um ind_j ind_q
                  (log 2 (real_of_int n) + np_sum (np_mul R_q_j (np_log2 R_q_j)))
      in q_loop n m ind_j rest (Um', Vm'))"

text \<open>The outer loop \<open>for ind_j, j in enumerate(self.j)\<close>.\<close>

fun j_loop :: "MultiResolutionQuantity \<Rightarrow> real list \<Rightarrow> (nat \<times> int) list \<Rightarrow> matrix \<times> matrix
    \<Rightarrow> error + matrix \<times> matrix" where
  "j_loop m qs [] UV = Inr UV"
| "j_loop m qs ((ind_j, jj) # rest) UV =
     (case dict_get (nj m) KeyError jj of
        Inl e \<Rightarrow> Inl e
      | Inr n \<Rightarrow>
         (case dict_get (map_of (values_of m)) KeyError jj of
            Inl e \<Rightarrow> Inl e
          | Inr vs \<Rightarrow> j_loop m qs rest (q_loop n (np_abs vs) ind_j (enumerate 0 qs) UV)))"

subsection \<open>The weights and the regression loop (lines 66 to 89, 108 to 115)\<close>

text \<open>\<open>get_nj_interv\<close>: \<open>nj\<close> as a list, for the scales of \<open>range(j1, j2+1)\<close>.\<close>

fun nj_loop :: "MultiResolutionQuantity \<Rightarrow> int list \<Rightarrow> int list \<Rightarrow> error + int list" where
  "nj_loop m [] acc = Inr acc"
| "nj_loop m (jj # rest) acc =
     (case dict_get (nj m) KeyError jj of
        Inl e \<Rightarrow> Inl e
      | Inr n \<Rightarrow> nj_loop m rest (acc @ [n]))"

definition get_nj_interv :: "MultiResolutionQuantity \<Rightarrow> int \<Rightarrow> int \<Rightarrow> error + int list" where
  "get_nj_interv m a b = nj_loop m (np_arange a (b + 1)) []"

text \<open>
  The loop \<open>for ind_q, q in enumerate(self.q)\<close> of the regressions. The routine
  \<open>Utils().linear_regression\<close> is not part of mfspectrum.py: it is the parameter
  \<open>reg\<close>.
\<close>

fun reg_loop :: "regression \<Rightarrow> matrix \<Rightarrow> matrix \<Rightarrow> WaveletParameters \<Rightarrow> real list \<Rightarrow> real list
    \<Rightarrow> (nat \<times> real) list \<Rightarrow> real list \<times> real list \<Rightarrow> error + real list \<times> real list" where
  "reg_loop reg Um Vm wp x wj [] (D, h) = Inr (D, h)"
| "reg_loop reg Um Vm wp x wj ((ind_q, qq) # rest) (D, h) =
     (let y = slice_col Um (j1 wp - 1) (j2 wp) ind_q;
          z = slice_col Vm (j1 wp - 1) (j2 wp) ind_q
      in case reg x y wj of
           Inl e \<Rightarrow> Inl e
         | Inr (slope_1, intercept_1) \<Rightarrow>
            (case reg x z wj of
               Inl e \<Rightarrow> Inl e
             | Inr (slope_2, intercept_2) \<Rightarrow>
                reg_loop reg Um Vm wp x wj rest (D[ind_q := 1 + slope_1], h[ind_q := slope_2])))"

subsection \<open>\<open>_compute\<close> and the constructor\<close>

text \<open>The first block of \<open>_compute\<close>: the matrices \<open>U\<close> and \<open>V\<close>.\<close>

definition compute_UV :: "MultifractalSpectrum \<Rightarrow> error + matrix \<times> matrix" where
  "compute_UV s =
     j_loop (mrq s) (q s) (enumerate 0 (j s))
       (np_zeros2 (length (j s)) (length (q s)), np_zeros2 (length (j s)) (length (q s)))"

text \<open>The weights \<open>wj\<close>.\<close>

definition weights :: "MultifractalSpectrum \<Rightarrow> int list \<Rightarrow> error + real list" where
  "weights s x =
     (if wtype (wt_param s) = 1
      then (case get_nj_interv (mrq s) (j1 (wt_param s)) (j2 (wt_param s)) of
              Inl e \<Rightarrow> Inl e
            | Inr ns \<Rightarrow> Inr (map real_of_int ns))
      else Inr (np_ones (length x)))"

definition compute :: "regression \<Rightarrow> MultifractalSpectrum \<Rightarrow> error + MultifractalSpectrum" where
  "compute reg s =
     (case compute_UV s of
        Inl e \<Rightarrow> Inl e
      | Inr (Um, Vm) \<Rightarrow>
         (let s1 = s\<lparr>U := Some Um, V := Some Vm\<rparr>;
              x = np_arange (j1 (wt_param s1)) (j2 (wt_param s1) + 1)
          in case weights s1 x of
               Inl e \<Rightarrow> Inl e
             | Inr wj \<Rightarrow>
                (case reg_loop reg Um Vm (wt_param s1) (map real_of_int x) wj
                        (enumerate 0 (q s1)) (np_zeros (length (q s1)), np_zeros (length (q s1))) of
                   Inl e \<Rightarrow> Inl e
                 | Inr (D, h) \<Rightarrow> Inr (s1\<lparr>Dq := Some D, hq := Some h\<rparr>))))"

text \<open>
  \<open>__init__(self, mrq, q, j1, j2, wtype)\<close>: the attributes are set, then \<open>_compute\<close>
  runs. An exception of \<open>_compute\<close> leaves the constructor, and no object is built.
\<close>

definition init_state :: "MultiResolutionQuantity \<Rightarrow> real list \<Rightarrow> int \<Rightarrow> int \<Rightarrow> int
    \<Rightarrow> MultifractalSpectrum" where
  "init_state m qs a b wt =
     \<lparr>mrq = m, j = keys (values_of m), q = qs, Dq = None, hq = None,
      wt_param = \<lparr>j1 = a, j2 = b, wtype = wt\<rparr>, U = None, V = None\<rparr>"

definition init :: "regression \<Rightarrow> MultiResolutionQuantity \<Rightarrow> real list \<Rightarrow> int \<Rightarrow> int \<Rightarrow> int
    \<Rightarrow> error + MultifractalSpectrum" where
  "init reg m qs a b wt = compute reg (init_state m qs a b wt)"

text \<open>What a caller reads off a construction: the error, or the pair \<open>(hq, Dq)\<close>.\<close>

definition spectrum :: "error + MultifractalSpectrum \<Rightarrow> error + real list option \<times> real list option" where
  "spectrum res = (case res of Inl e \<Rightarrow> Inl e | Inr r \<Rightarrow> Inr (hq r, Dq r))"

subsection \<open>The regression routine\<close>

text \<open>The weighted sum \<open>sum(w * f)\<close> of two sequences.\<close>

definition wsum :: "real list \<Rightarrow> real list \<Rightarrow> real" where
  "wsum w f = sum_list (map2 (*) w f)"

text \<open>
  Modelled from the spec: \<open>Utils().linear_regression(x, y, wj)\<close>, of mfanalysis/utils.py,
  which is not among the sources. The specification describes it as the routine that,
  given \<open>x\<close>, \<open>y\<close> and per-point weights of the same length, returns the (slope,
  intercept) minimising the weighted squared error, and that fails with a
  \<open>DegenerateRegressionError\<close> if \<open>x\<close> has fewer than 2 distinct points. The minimiser
  is written in its closed form, the solution of the normal equations; that it
  minimises the weighted squared error is \<open>linear_regression_minimises\<close> below. The
  specification says nothing about arguments of different lengths; the sums here run over
  the common prefix.
\<close>

definition linear_regression :: regression where
  "linear_regression x y w =
     (if length (remdups x) < 2 then Inl DegenerateRegressionError
      else let S0 = sum_list w; S1 = wsum w x; S2 = wsum w (map2 (*) x x);
               T0 = wsum w y; T1 = wsum w (map2 (*) x y);
               D = S0 * S2 - S1 * S1
           in Inr ((S0 * T1 - S1 * T0) / D, (S2 * T0 - S1 * T1) / D))"

text \<open>The weighted squared error of the line \<open>a * x + b\<close>.\<close>

definition wsq_error :: "real list \<Rightarrow> real list \<Rightarrow> real list \<Rightarrow> real \<Rightarrow> real \<Rightarrow> real" where
  "wsq_error x y w a b = (\<Sum>i<length x. w ! i * (y ! i - (a * x ! i + b))\<^sup>2)"

subsection \<open>The statistics as the specification writes them\<close>

text \<open>
  With \<open>m = |values[j]|\<close> element by element: \<open>R = m^q / sum(m^q)\<close>,
  \<open>V[j,q] = sum(R * log2(m))\<close> and \<open>U[j,q] = log2(nj) + sum(R * log2(R))\<close>.
\<close>

definition R_weight :: "real list \<Rightarrow> real \<Rightarrow> nat \<Rightarrow> real" where
  "R_weight vs p i = power_elem (abs (vs ! i)) p / (\<Sum>k<length vs. power_elem (abs (vs ! k)) p)"

definition V_stat :: "real list \<Rightarrow> real \<Rightarrow> real" where
  "V_stat vs p = (\<Sum>i<length vs. R_weight vs p i * log 2 (abs (vs ! i)))"

definition U_stat :: "int \<Rightarrow> real list \<Rightarrow> real \<Rightarrow> real" where
  "U_stat n vs p =
     log 2 (real_of_int n) + (\<Sum>i<length vs. R_weight vs p i * log 2 (R_weight vs p i))"

text \<open>
  A valid multiresolution quantity: every scale has at least one coefficient, and
  \<open>nj\<close> holds the number of coefficients of the scale.
\<close>

definition valid_mrq :: "MultiResolutionQuantity \<Rightarrow> bool" where
  "valid_mrq m =
     list_all (\<lambda>jj. case map_of (values_of m) jj of
                      None \<Rightarrow> False
                    | Some vs \<Rightarrow> vs \<noteq> [] \<and> nj m jj = Some (int (length vs)))
       (keys (values_of m))"

subsection \<open>Closed forms of the loops\<close>

text \<open>The two values the body of the inner loop stores.\<close>

definition U_entry :: "int \<Rightarrow> real list \<Rightarrow> real \<Rightarrow> real" where
  "U_entry n m qq =
     (let temp = np_power m qq; R_q_j = np_div temp (np_sum temp)
      in log 2 (real_of_int n) + np_sum (np_mul R_q_j (np_log2 R_q_j)))"

definition V_entry :: "real list \<Rightarrow> real \<Rightarrow> real" where
  "V_entry m qq =
     (let temp = np_power m qq; R_q_j = np_div temp (np_sum temp)
      in np_sum (np_mul R_q_j (np_log2 m)))"

text \<open>Storing a list of indexed values into a row, one after the other.\<close>

fun fill :: "real list \<Rightarrow> (nat \<times> real) list \<Rightarrow> real list" where
  "fill row [] = row"
| "fill row ((k, v) # rest) = fill (row[k := v]) rest"

text \<open>The rows of \<open>U\<close> and \<open>V\<close> of a scale whose two lookups succeed.\<close>

definition U_row :: "MultiResolutionQuantity \<Rightarrow> real list \<Rightarrow> int \<Rightarrow> real list" where
  "U_row m qs jj =
     map (U_entry (the (nj m jj)) (np_abs (the (map_of (values_of m) jj)))) qs"

definition V_row :: "MultiResolutionQuantity \<Rightarrow> real list \<Rightarrow> int \<Rightarrow> real list" where
  "V_row m qs jj = map (V_entry (np_abs (the (map_of (values_of m) jj)))) qs"

definition has_scale :: "MultiResolutionQuantity \<Rightarrow> int \<Rightarrow> bool" where
  "has_scale m jj \<longleftrightarrow> nj m jj \<noteq> None \<and> map_of (values_of m) jj \<noteq> None"

text \<open>The body of the regression loop for one moment order: the new entries of \<open>Dq\<close> and \<open>hq\<close>.\<close>

definition reg_col :: "regression \<Rightarrow> matrix \<Rightarrow> matrix \<Rightarrow> WaveletParameters \<Rightarrow> real list \<Rightarrow> real list
    \<Rightarrow> nat \<Rightarrow> error + real \<times> real" where
  "reg_col reg Um Vm wp x wj ind_q =
     (case reg x (slice_col Um (j1 wp - 1) (j2 wp) ind_q) wj of
        Inl e \<Rightarrow> Inl e
      | Inr (slope_1, intercept_1) \<Rightarrow>
         (case reg x (slice_col Vm (j1 wp - 1) (j2 wp) ind_q) wj of
            Inl e \<Rightarrow> Inl e
          | Inr (slope_2, intercept_2) \<Rightarrow> Inr (1 + slope_1, slope_2)))"

text \<open>Running a fallible body over a list of indices, stopping at the first error.\<close>

fun collect :: "(nat \<Rightarrow> error + 'a) \<Rightarrow> nat list \<Rightarrow> error + 'a list" where
  "collect f [] = Inr []"
| "collect f (i # is) =
     (case f i of
        Inl e \<Rightarrow> Inl e
      | Inr v \<Rightarrow> (case collect f is of Inl e \<Rightarrow> Inl e | Inr vs \<Rightarrow> Inr (v # vs)))"

text \<open>The object \<open>_compute\<close> leaves behind when every step succeeds.\<close>

definition finish :: "MultifractalSpectrum \<Rightarrow> matrix \<Rightarrow> matrix \<Rightarrow> (real \<times> real) list
    \<Rightarrow> MultifractalSpectrum" where
  "finish s Um Vm ps = s\<lparr>U := Some Um, V := Some Vm, Dq := Some (map fst ps), hq := Some (map snd ps)\<rparr>"

text \<open>The matrices \<open>U\<close> and \<open>V\<close> of a multiresolution quantity, row by row.\<close>

definition U_matrix :: "MultiResolutionQuantity \<Rightarrow> real list \<Rightarrow> matrix" where
  "U_matrix m qs = map (U_row m qs) (keys (values_of m))"

text \<open>The same for \<open>V\<close>.\<close>

definition V_matrix :: "MultiResolutionQuantity \<Rightarrow> real list \<Rightarrow> matrix" where
  "V_matrix m qs = map (V_row m qs) (keys (values_of m))"

text \<open>\<open>U[j, q]\<close> and \<open>V[j, q]\<close> for the scale \<open>j\<close> of a multiresolution quantity.\<close>

definition U_scale :: "MultiResolutionQuantity \<Rightarrow> int \<Rightarrow> real \<Rightarrow> real" where
  "U_scale m jj p = U_stat (the (nj m jj)) (the (map_of (values_of m) jj)) p"

text \<open>The same for \<open>V\<close>.\<close>

definition V_scale :: "MultiResolutionQuantity \<Rightarrow> int \<Rightarrow> real \<Rightarrow> real" where
  "V_scale m jj p = V_stat (the (map_of (values_of m) jj)) p"

text \<open>
  The two regressions of one moment order \<open>p\<close> over the scales \<open>js\<close> of the rows the
  slice selects: the entries of \<open>Dq\<close> and \<open>hq\<close> for \<open>p\<close>.
\<close>

definition col_spectrum :: "regression \<Rightarrow> MultiResolutionQuantity \<Rightarrow> int list \<Rightarrow> real list
    \<Rightarrow> real list \<Rightarrow> real \<Rightarrow> error + real \<times> real" where
  "col_spectrum reg m js x wj p =
     (case reg x (map (\<lambda>jj. U_scale m jj p) js) wj of
        Inl e \<Rightarrow> Inl e
      | Inr (slope_D, intercept_D) \<Rightarrow>
         (case reg x (map (\<lambda>jj. V_scale m jj p) js) wj of
            Inl e \<Rightarrow> Inl e
          | Inr (slope_h, intercept_h) \<Rightarrow> Inr (1 + slope_D, slope_h)))"

text \<open>
  The weights as the specification writes them: all ones for the ordinary regression,
  \<open>wj[k] = nj[x[k]]\<close> for the regression weighted by count, with \<open>x = j1, ..., j2\<close>.
\<close>

definition window_weights :: "MultiResolutionQuantity \<Rightarrow> int \<Rightarrow> int \<Rightarrow> int \<Rightarrow> real list" where
  "window_weights m a b wt =
     (if wt = 1 then map (\<lambda>jj. real_of_int (the (nj m jj))) [a..b]
      else replicate (length [a..b]) 1)"

subsection \<open>Small multiresolution quantities\<close>

text \<open>Three scales with two coefficients each.\<close>

definition mrq3 :: MultiResolutionQuantity where
  "mrq3 = \<lparr>name = ''mrq3'', nj = [1 \<mapsto> 2, 2 \<mapsto> 2, 3 \<mapsto> 2],
           values_of = [(1, [1, - 1]), (2, [2, 2]), (3, [4, - 4])]\<rparr>"

text \<open>A second quantity, equal to \<open>mrq3\<close> at the scales 1 and 2 only.\<close>

definition mrq3_alt :: MultiResolutionQuantity where
  "mrq3_alt = \<lparr>name = ''mrq3_alt'', nj = [1 \<mapsto> 2, 2 \<mapsto> 2, 3 \<mapsto> 3],
               values_of = [(1, [1, - 1]), (2, [2, 2]), (3, [8, 8, 8])]\<rparr>"

text \<open>A third one, equal to \<open>mrq3\<close> except for the coefficients of scale 2.\<close>

definition mrq3_flat :: MultiResolutionQuantity where
  "mrq3_flat = \<lparr>name = ''mrq3_flat'', nj = [1 \<mapsto> 2, 2 \<mapsto> 2, 3 \<mapsto> 2],
                values_of = [(1, [1, - 1]), (2, [1, 1]), (3, [4, - 4])]\<rparr>"

section \<open>The loops in closed form\<close>

lemma length_fill: "length (fill row kvs) = length row"
  by (induction row kvs rule: fill.induct) auto

lemma fill_enumerate:
  "length row = k + length vs \<Longrightarrow> fill row (enumerate k vs) = take k row @ vs"
proof (induction vs arbitrary: k row)
  case Nil
  then show ?case by simp
next
  case (Cons v vs)
  have "fill (row[k := v]) (enumerate (Suc k) vs) = take (Suc k) (row[k := v]) @ vs"
    using Cons.prems by (intro Cons.IH) simp
  also have "take (Suc k) (row[k := v]) = take k row @ [v]"
    using Cons.prems by (simp add: take_Suc_conv_app_nth)
  finally show ?case by simp
qed

lemma q_loop_step:
  "q_loop n m i ((k, a) # rest) (Um, Vm) =
     q_loop n m i rest (set2 Um i k (U_entry n m a), set2 Vm i k (V_entry m a))"
  by (simp add: Let_def U_entry_def V_entry_def)

lemma q_loop_fill:
  "i < length Um \<Longrightarrow> i < length Vm \<Longrightarrow>
   q_loop n m i (enumerate k qs) (Um, Vm) =
     (Um[i := fill (Um ! i) (enumerate k (map (U_entry n m) qs))],
      Vm[i := fill (Vm ! i) (enumerate k (map (V_entry m) qs))])"
proof (induction qs arbitrary: k Um Vm)
  case Nil
  then show ?case by simp
next
  case (Cons a qs)
  have "q_loop n m i (enumerate k (a # qs)) (Um, Vm) =
        q_loop n m i (enumerate (Suc k) qs)
          (set2 Um i k (U_entry n m a), set2 Vm i k (V_entry m a))"
    by (simp only: enumerate_simps q_loop_step)
  also have "\<dots> = ((set2 Um i k (U_entry n m a))
            [i := fill (set2 Um i k (U_entry n m a) ! i) (enumerate (Suc k) (map (U_entry n m) qs))],
          (set2 Vm i k (V_entry m a))
            [i := fill (set2 Vm i k (V_entry m a) ! i) (enumerate (Suc k) (map (V_entry m) qs))])"
    using Cons.prems by (intro Cons.IH) (simp_all add: set2_def)
  finally show ?case
    using Cons.prems by (simp add: set2_def)
qed

lemma q_loop_rows:
  assumes "i < length Um" "i < length Vm"
    "length (Um ! i) = length qs" "length (Vm ! i) = length qs"
  shows "q_loop n m i (enumerate 0 qs) (Um, Vm) =
     (Um[i := map (U_entry n m) qs], Vm[i := map (V_entry m) qs])"
  using assms by (simp add: q_loop_fill fill_enumerate)

lemma j_loop_step:
  assumes "has_scale m jj" "k < length Um" "k < length Vm"
    "length (Um ! k) = length qs" "length (Vm ! k) = length qs"
  shows "j_loop m qs ((k, jj) # rest) (Um, Vm) =
         j_loop m qs rest (Um[k := U_row m qs jj], Vm[k := V_row m qs jj])"
proof -
  obtain n vs where n: "nj m jj = Some n" and vs: "map_of (values_of m) jj = Some vs"
    using assms(1) by (auto simp: has_scale_def)
  show ?thesis
    using assms(2-5) by (simp add: dict_get_def n vs q_loop_rows U_row_def V_row_def)
qed

lemma j_loop_rows:
  assumes "\<forall>jj\<in>set js. has_scale m jj"
    and "k + length js \<le> length Um" "length Vm = length Um"
    and "\<forall>r\<in>set Um. length r = length qs" "\<forall>r\<in>set Vm. length r = length qs"
  shows "j_loop m qs (enumerate k js) (Um, Vm) =
     Inr (take k Um @ map (U_row m qs) js @ drop (k + length js) Um,
          take k Vm @ map (V_row m qs) js @ drop (k + length js) Vm)"
  using assms
proof (induction js arbitrary: k Um Vm)
  case Nil
  then show ?case by simp
next
  case (Cons jj js)
  let ?Um = "Um[k := U_row m qs jj]" and ?Vm = "Vm[k := V_row m qs jj]"
  have k: "k < length Um" "k < length Vm"
    using Cons.prems by simp_all
  have step: "j_loop m qs (enumerate k (jj # js)) (Um, Vm) =
              j_loop m qs (enumerate (Suc k) js) (?Um, ?Vm)"
    unfolding enumerate_simps
    by (rule j_loop_step) (use Cons.prems k in \<open>simp_all add: nth_mem\<close>)
  have rowsU: "\<forall>r\<in>set ?Um. length r = length qs"
    using Cons.prems(4) by (auto simp: U_row_def dest!: subsetD [OF set_update_subset_insert])
  have rowsV: "\<forall>r\<in>set ?Vm. length r = length qs"
    using Cons.prems(5) by (auto simp: V_row_def dest!: subsetD [OF set_update_subset_insert])
  have "j_loop m qs (enumerate (Suc k) js) (?Um, ?Vm) =
     Inr (take (Suc k) ?Um @ map (U_row m qs) js @ drop (Suc k + length js) ?Um,
          take (Suc k) ?Vm @ map (V_row m qs) js @ drop (Suc k + length js) ?Vm)"
    using Cons.prems(1-3) rowsU rowsV by (intro Cons.IH) simp_all
  moreover have "take (Suc k) ?Um = take k Um @ [U_row m qs jj]"
    using k by (simp add: take_Suc_conv_app_nth)
  moreover have "take (Suc k) ?Vm = take k Vm @ [V_row m qs jj]"
    using k by (simp add: take_Suc_conv_app_nth)
  ultimately show ?case
    using step by simp
qed

lemma compute_UV_rows:
  assumes "\<forall>jj\<in>set (j s). has_scale (mrq s) jj"
  shows "compute_UV s = Inr (map (U_row (mrq s) (q s)) (j s), map (V_row (mrq s) (q s)) (j s))"
  using assms by (simp add: compute_UV_def j_loop_rows np_zeros2_def)

text \<open>A failure of the statistics loop is a KeyError.\<close>

lemma q_loop_length:
  "q_loop n m i kqs UV = UV' \<Longrightarrow>
   length (fst UV') = length (fst UV) \<and> length (snd UV') = length (snd UV)"
  by (induction n m i kqs UV arbitrary: UV' rule: q_loop.induct) (auto simp: Let_def set2_def)

lemma j_loop_error:
  "j_loop m qs kjs UV = Inl e \<Longrightarrow> \<exists>jj\<in>snd ` set kjs. e = KeyError jj \<and> \<not> has_scale m jj"
proof (induction m qs kjs UV rule: j_loop.induct)
  case (1 m qs UV)
  then show ?case by simp
next
  case (2 m qs ind_j jj rest UV)
  then show ?case
    by (fastforce simp: dict_get_def has_scale_def split: option.splits)
qed

lemma sum_list_map_nth:
  fixes h :: "'a \<Rightarrow> real"
  shows "sum_list (map h xs) = (\<Sum>i<length xs. h (xs ! i))"
  by (simp add: sum_list_sum_nth lessThan_atLeast0)

lemma map2_same: "map2 f (map g xs) (map h xs) = map (\<lambda>x. f (g x) (h x)) xs"
  by (induction xs) auto

lemma np_sum_power: "np_sum (np_power (np_abs vs) p) = (\<Sum>k<length vs. power_elem (abs (vs ! k)) p)"
  by (simp add: np_sum_def np_power_def np_abs_def sum_list_map_nth comp_def)

lemma V_entry_stat: "V_entry (np_abs vs) p = V_stat vs p"
proof -
  let ?S = "\<Sum>k<length vs. power_elem (abs (vs ! k)) p"
  have "V_entry (np_abs vs) p =
        sum_list (map (\<lambda>v. power_elem (abs v) p / ?S * log 2 (abs v)) vs)"
    unfolding V_entry_def Let_def np_sum_power
    by (simp add: np_sum_def np_mul_def np_div_def np_power_def np_log2_def np_abs_def
        map2_same [of _ _ vs, unfolded map_map comp_def] comp_def)
  also have "\<dots> = V_stat vs p"
    by (simp add: sum_list_map_nth V_stat_def R_weight_def)
  finally show ?thesis .
qed

lemma U_entry_stat: "U_entry n (np_abs vs) p = U_stat n vs p"
proof -
  let ?S = "\<Sum>k<length vs. power_elem (abs (vs ! k)) p"
  have "U_entry n (np_abs vs) p = log 2 (real_of_int n) +
        sum_list (map (\<lambda>v. power_elem (abs v) p / ?S * log 2 (power_elem (abs v) p / ?S)) vs)"
    unfolding U_entry_def Let_def np_sum_power
    by (simp add: np_sum_def np_mul_def np_div_def np_power_def np_log2_def np_abs_def
        map2_same [of _ _ vs, unfolded map_map comp_def] comp_def)
  also have "\<dots> = U_stat n vs p"
    by (simp add: sum_list_map_nth U_stat_def R_weight_def)
  finally show ?thesis .
qed

lemma U_stat_zero:
  assumes "n = int (length vs)" "vs \<noteq> []"
  shows "U_stat n vs 0 = 0"
proof -
  have n: "0 < length vs" using assms by simp
  have R: "R_weight vs 0 i = 1 / real (length vs)" for i
    by (simp add: R_weight_def power_elem_def)
  have "(\<Sum>i<length vs. R_weight vs 0 i * log 2 (R_weight vs 0 i)) =
        real (length vs) * (1 / real (length vs) * log 2 (1 / real (length vs)))"
    by (simp add: R)
  also have "\<dots> = log 2 (1 / real (length vs))"
    using n by simp
  also have "\<dots> = - log 2 (real (length vs))"
    using n by (simp add: log_divide)
  finally show ?thesis
    using assms by (simp add: U_stat_def)
qed

lemma collect_cong: "(\<And>i. i \<in> set is \<Longrightarrow> f i = g i) \<Longrightarrow> collect f is = collect g is"
  by (induction "is") (auto split: sum.splits)

lemma collect_length: "collect f is = Inr vs \<Longrightarrow> length vs = length is"
  by (induction "is" arbitrary: vs) (auto split: sum.splits)

lemma collect_nth: "collect f is = Inr vs \<Longrightarrow> i < length is \<Longrightarrow> f (is ! i) = Inr (vs ! i)"
proof (induction "is" arbitrary: vs i)
  case Nil
  then show ?case by simp
next
  case (Cons a "is")
  then show ?case by (cases i) (auto split: sum.splits)
qed

lemma collect_error: "collect f is = Inl e \<Longrightarrow> \<exists>i\<in>set is. f i = Inl e"
  by (induction "is") (auto split: sum.splits)

lemma collect_shift: "collect f (map Suc is) = collect (\<lambda>i. f (Suc i)) is"
  by (induction "is") (auto split: sum.splits)

lemma reg_loop_step:
  "reg_loop reg Um Vm wp x wj ((k, qq) # rest) (D, h) =
     (case reg_col reg Um Vm wp x wj k of
        Inl e \<Rightarrow> Inl e
      | Inr (d, s) \<Rightarrow> reg_loop reg Um Vm wp x wj rest (D[k := d], h[k := s]))"
  by (simp add: reg_col_def Let_def split: sum.splits prod.splits)

lemma reg_loop_collect:
  assumes "length D = k + length qs" "length h = k + length qs"
  shows "reg_loop reg Um Vm wp x wj (enumerate k qs) (D, h) =
     (case collect (reg_col reg Um Vm wp x wj) [k..<k + length qs] of
        Inl e \<Rightarrow> Inl e
      | Inr ps \<Rightarrow> Inr (take k D @ map fst ps, take k h @ map snd ps))"
  using assms
proof (induction qs arbitrary: k D h)
  case Nil
  then show ?case by simp
next
  case (Cons qq qs)
  have up: "[k..<k + length (qq # qs)] = k # [Suc k..<Suc k + length qs]"
    by (simp add: upt_rec)
  show ?case
  proof (cases "reg_col reg Um Vm wp x wj k")
    case (Inl e)
    then show ?thesis
      unfolding enumerate_simps reg_loop_step up by simp
  next
    case (Inr ds)
    obtain d s where ds: "ds = (d, s)" by (cases ds)
    have IH: "reg_loop reg Um Vm wp x wj (enumerate (Suc k) qs) (D[k := d], h[k := s]) =
       (case collect (reg_col reg Um Vm wp x wj) [Suc k..<Suc k + length qs] of
          Inl e \<Rightarrow> Inl e
        | Inr ps \<Rightarrow> Inr (take (Suc k) (D[k := d]) @ map fst ps,
                         take (Suc k) (h[k := s]) @ map snd ps))"
      using Cons.prems by (intro Cons.IH) simp_all
    have tk: "take (Suc k) (D[k := d]) = take k D @ [d]"
        "take (Suc k) (h[k := s]) = take k h @ [s]"
      using Cons.prems by (simp_all add: take_Suc_conv_app_nth)
    show ?thesis
      unfolding enumerate_simps reg_loop_step up
      by (simp add: Inr ds IH tk split: sum.splits)
  qed
qed

lemma nj_loop_all:
  "\<forall>jj\<in>set js. nj m jj \<noteq> None \<Longrightarrow>
   nj_loop m js acc = Inr (acc @ map (\<lambda>jj. the (nj m jj)) js)"
  by (induction js arbitrary: acc) (auto simp: dict_get_def)

lemma nj_loop_error:
  "nj_loop m js acc = Inl e \<Longrightarrow> \<exists>jj\<in>set js. e = KeyError jj \<and> nj m jj = None"
  by (induction js arbitrary: acc) (auto simp: dict_get_def split: option.splits)

lemma nj_loop_cong:
  "\<forall>jj\<in>set js. nj m jj = nj m' jj \<Longrightarrow> nj_loop m js acc = nj_loop m' js acc"
  by (induction js arbitrary: acc) (auto simp: dict_get_def split: option.splits)

section \<open>The constructor in closed form\<close>

lemma keys_has_values: "jj \<in> set (keys (values_of m)) \<Longrightarrow> map_of (values_of m) jj \<noteq> None"
  by (simp add: keys_def map_of_eq_None_iff)

lemma init_state_simps [simp]:
  "mrq (init_state m qs a b wt) = m"
  "j (init_state m qs a b wt) = keys (values_of m)"
  "q (init_state m qs a b wt) = qs"
  "wt_param (init_state m qs a b wt) = \<lparr>j1 = a, j2 = b, wtype = wt\<rparr>"
  by (simp_all add: init_state_def)

lemma compute_UV_init:
  assumes "\<forall>jj\<in>set (keys (values_of m)). nj m jj \<noteq> None"
  shows "compute_UV (init_state m qs a b wt) =
     Inr (map (U_row m qs) (keys (values_of m)), map (V_row m qs) (keys (values_of m)))"
  using assms by (simp add: compute_UV_rows has_scale_def keys_has_values)

lemma compute_UV_error:
  "compute_UV s = Inl e \<Longrightarrow> \<exists>jj\<in>set (j s). e = KeyError jj \<and> \<not> has_scale (mrq s) jj"
  unfolding compute_UV_def by (drule j_loop_error) (auto simp: in_set_enumerate_eq)

lemma weights_upd [simp]: "weights (s\<lparr>U := u, V := v\<rparr>) x = weights s x"
  by (simp add: weights_def)

lemma compute_eq:
  assumes "compute_UV s = Inr (Um, Vm)"
  shows "compute reg s =
     (case weights s (np_arange (j1 (wt_param s)) (j2 (wt_param s) + 1)) of
        Inl e \<Rightarrow> Inl e
      | Inr wj \<Rightarrow>
         (case collect (reg_col reg Um Vm (wt_param s)
                 (map real_of_int (np_arange (j1 (wt_param s)) (j2 (wt_param s) + 1))) wj)
                 [0..<length (q s)] of
            Inl e \<Rightarrow> Inl e
          | Inr ps \<Rightarrow> Inr (finish s Um Vm ps)))"
  by (simp add: compute_def assms Let_def reg_loop_collect np_zeros_def finish_def
      split: sum.splits)

section \<open>The statistics\<close>

lemma rows_nth:
  assumes "ind_j < length (values_of m)" "ind_q < length qs"
  shows "map (U_row m qs) (keys (values_of m)) ! ind_j ! ind_q =
           U_stat (the (nj m (fst (values_of m ! ind_j))))
             (the (map_of (values_of m) (fst (values_of m ! ind_j)))) (qs ! ind_q)"
    and "map (V_row m qs) (keys (values_of m)) ! ind_j ! ind_q =
           V_stat (the (map_of (values_of m) (fst (values_of m ! ind_j)))) (qs ! ind_q)"
  using assms by (simp_all add: keys_def U_row_def V_row_def U_entry_stat V_entry_stat)

text \<open>
  Claim C1. When every scale of the multiresolution quantity has an \<open>nj\<close> entry, the
  statistics block returns two matrices with one row per scale, and for every scale
  (row \<open>ind_j\<close>) and every moment order (column \<open>ind_q\<close>) the entries are the
  formulas of the specification: with \<open>m = |values[j]|\<close> and \<open>R = m^q / sum(m^q)\<close>,
  \<open>V[j,q] = sum(R * log2(m))\<close> and \<open>U[j,q] = log2(nj) + sum(R * log2(R))\<close>.
\<close>

theorem statistics_formulas:
  assumes "\<forall>jj\<in>set (keys (values_of m)). nj m jj \<noteq> None"
  shows "\<exists>Um Vm. compute_UV (init_state m qs a b wt) = Inr (Um, Vm) \<and>
           length Um = length (values_of m) \<and> length Vm = length (values_of m) \<and>
           (\<forall>ind_j<length (values_of m). \<forall>ind_q<length qs.
              \<exists>n vs. nj m (fst (values_of m ! ind_j)) = Some n \<and>
                     map_of (values_of m) (fst (values_of m ! ind_j)) = Some vs \<and>
                     Vm ! ind_j ! ind_q = V_stat vs (qs ! ind_q) \<and>
                     Um ! ind_j ! ind_q = U_stat n vs (qs ! ind_q))"
proof -
  let ?Um = "map (U_row m qs) (keys (values_of m))"
  let ?Vm = "map (V_row m qs) (keys (values_of m))"
  have run: "compute_UV (init_state m qs a b wt) = Inr (?Um, ?Vm)"
    using assms by (rule compute_UV_init)
  have entry: "\<exists>n vs. nj m (fst (values_of m ! ind_j)) = Some n \<and>
                     map_of (values_of m) (fst (values_of m ! ind_j)) = Some vs \<and>
                     ?Vm ! ind_j ! ind_q = V_stat vs (qs ! ind_q) \<and>
                     ?Um ! ind_j ! ind_q = U_stat n vs (qs ! ind_q)"
    if "ind_j < length (values_of m)" "ind_q < length qs" for ind_j ind_q
  proof -
    have key: "fst (values_of m ! ind_j) \<in> set (keys (values_of m))"
      using that(1) by (simp add: keys_def)
    obtain n where n: "nj m (fst (values_of m ! ind_j)) = Some n"
      using assms key by blast
    obtain vs where vs: "map_of (values_of m) (fst (values_of m ! ind_j)) = Some vs"
      using keys_has_values [OF key] by blast
    show ?thesis
      using rows_nth [OF that] by (simp add: n vs)
  qed
  show ?thesis
    using run entry by (intro exI [of _ ?Um] exI [of _ ?Vm]) (simp add: keys_def)
qed

theorem statistics_formulas_witness:
  "\<exists>Um Vm. compute_UV (init_state mrq3 [0, 2] 1 3 0) = Inr (Um, Vm) \<and>
      Vm ! 1 ! 1 = V_stat [2, 2] 2 \<and> Um ! 1 ! 1 = U_stat 2 [2, 2] 2"
proof -
  have h: "\<forall>jj\<in>set (keys (values_of mrq3)). nj mrq3 jj \<noteq> None"
    by (simp add: mrq3_def keys_def)
  obtain Um Vm where run: "compute_UV (init_state mrq3 [0, 2] 1 3 0) = Inr (Um, Vm)"
    and entries: "\<forall>ind_j<length (values_of mrq3). \<forall>ind_q<length [0, 2 :: real].
              \<exists>n vs. nj mrq3 (fst (values_of mrq3 ! ind_j)) = Some n \<and>
                     map_of (values_of mrq3) (fst (values_of mrq3 ! ind_j)) = Some vs \<and>
                     Vm ! ind_j ! ind_q = V_stat vs ([0, 2] ! ind_q) \<and>
                     Um ! ind_j ! ind_q = U_stat n vs ([0, 2] ! ind_q)"
    using statistics_formulas [OF h, of "[0, 2]" 1 3 0] by blast
  have "1 < length (values_of mrq3)" "1 < length [0, 2 :: real]"
    by (simp_all add: mrq3_def)
  with entries have "\<exists>n vs. nj mrq3 (fst (values_of mrq3 ! 1)) = Some n \<and>
                     map_of (values_of mrq3) (fst (values_of mrq3 ! 1)) = Some vs \<and>
                     Vm ! 1 ! 1 = V_stat vs ([0, 2] ! 1) \<and>
                     Um ! 1 ! 1 = U_stat n vs ([0, 2] ! 1)"
    by blast
  then have "Vm ! 1 ! 1 = V_stat [2, 2] 2 \<and> Um ! 1 ! 1 = U_stat 2 [2, 2] 2"
    by (auto simp: mrq3_def)
  with run show ?thesis by blast
qed

lemma valid_mrq_scale:
  assumes "valid_mrq m" "jj \<in> set (keys (values_of m))"
  obtains vs where "map_of (values_of m) jj = Some vs" "vs \<noteq> []"
    "nj m jj = Some (int (length vs))"
  using assms by (auto simp: valid_mrq_def list_all_iff split: option.splits)

text \<open>
  The column of the moment order 0, over the reals. On a valid multiresolution quantity
  the weighting is uniform, \<open>1/nj\<close>, and the entropy term cancels \<open>log2(nj)\<close>:
  every entry of \<open>U\<close> in that column is 0. This is a statement about real arithmetic
  only. The code computes in IEEE doubles, where \<open>1/nj\<close>, \<open>log2\<close> and the sum are
  rounded and the cancellation is exact only for some \<open>nj\<close> (the powers of 2, for
  instance); nothing here says that the floating-point entry is exactly 0.
\<close>

lemma U_column_zero_reals:
  assumes "valid_mrq m"
  shows "\<exists>Um Vm. compute_UV (init_state m qs a b wt) = Inr (Um, Vm) \<and>
           (\<forall>ind_j<length (values_of m). \<forall>ind_q<length qs.
              qs ! ind_q = 0 \<longrightarrow> Um ! ind_j ! ind_q = 0)"
proof -
  let ?Um = "map (U_row m qs) (keys (values_of m))"
  let ?Vm = "map (V_row m qs) (keys (values_of m))"
  have "\<forall>jj\<in>set (keys (values_of m)). nj m jj \<noteq> None"
    using assms by (auto elim: valid_mrq_scale)
  then have run: "compute_UV (init_state m qs a b wt) = Inr (?Um, ?Vm)"
    by (rule compute_UV_init)
  have "?Um ! ind_j ! ind_q = 0"
    if "ind_j < length (values_of m)" "ind_q < length qs" "qs ! ind_q = 0" for ind_j ind_q
  proof -
    have key: "fst (values_of m ! ind_j) \<in> set (keys (values_of m))"
      using that(1) by (simp add: keys_def)
    from assms key obtain vs where
      "map_of (values_of m) (fst (values_of m ! ind_j)) = Some vs" "vs \<noteq> []"
      "nj m (fst (values_of m ! ind_j)) = Some (int (length vs))"
      by (rule valid_mrq_scale)
    then show ?thesis
      using rows_nth(1) [OF that(1,2)] that(3) by (simp add: U_stat_zero)
  qed
  with run show ?thesis by blast
qed

lemma U_column_zero_reals_mrq3:
  "valid_mrq mrq3 \<and>
   (\<exists>Um Vm. compute_UV (init_state mrq3 [2, 0] 1 3 0) = Inr (Um, Vm) \<and>
      Um ! 0 ! 1 = 0 \<and> Um ! 1 ! 1 = 0 \<and> Um ! 2 ! 1 = 0)"
proof -
  have h: "valid_mrq mrq3"
    by (simp add: valid_mrq_def mrq3_def keys_def)
  obtain Um Vm where run: "compute_UV (init_state mrq3 [2, 0] 1 3 0) = Inr (Um, Vm)"
    and zero: "\<forall>ind_j<length (values_of mrq3). \<forall>ind_q<length [2, 0 :: real].
              [2, 0 :: real] ! ind_q = 0 \<longrightarrow> Um ! ind_j ! ind_q = 0"
    using U_column_zero_reals [OF h, of "[2, 0]" 1 3 0] by blast
  have "Um ! 0 ! 1 = 0 \<and> Um ! 1 ! 1 = 0 \<and> Um ! 2 ! 1 = 0"
    using zero by (simp add: mrq3_def)
  with h run show ?thesis by blast
qed

section \<open>Outcomes of the constructor\<close>

lemma j_loop_success:
  "j_loop m qs kjs UV = Inr UV' \<Longrightarrow> \<forall>jj\<in>snd ` set kjs. has_scale m jj"
proof (induction m qs kjs UV rule: j_loop.induct)
  case (1 m qs UV)
  then show ?case by simp
next
  case (2 m qs ind_j jj rest UV)
  then show ?case
    by (auto simp: dict_get_def has_scale_def split: option.splits)
qed

lemma compute_UV_success:
  assumes "compute_UV s = Inr UV"
  shows "\<forall>jj\<in>set (j s). has_scale (mrq s) jj"
proof -
  have "set (map snd (enumerate 0 (j s))) = set (j s)"
    by (simp only: map_snd_enumerate)
  then have "snd ` set (enumerate 0 (j s)) = set (j s)"
    by (simp only: set_map)
  then show ?thesis
    using j_loop_success [OF assms [unfolded compute_UV_def]] by simp
qed

lemma init_eq:
  assumes "\<forall>jj\<in>set (keys (values_of m)). nj m jj \<noteq> None"
  shows "init reg m qs a b wt =
     (case weights (init_state m qs a b wt) [a..b] of
        Inl e \<Rightarrow> Inl e
      | Inr wj \<Rightarrow>
         (case collect (reg_col reg (U_matrix m qs) (V_matrix m qs) \<lparr>j1 = a, j2 = b, wtype = wt\<rparr>
                 (map real_of_int [a..b]) wj) [0..<length qs] of
            Inl e \<Rightarrow> Inl e
          | Inr ps \<Rightarrow> Inr (finish (init_state m qs a b wt) (U_matrix m qs) (V_matrix m qs) ps)))"
  unfolding init_def U_matrix_def V_matrix_def
  by (simp add: compute_eq [OF compute_UV_init [OF assms]] np_arange_def cong: sum.case_cong)

lemma init_Inl_stats:
  assumes "\<not> (\<forall>jj\<in>set (keys (values_of m)). nj m jj \<noteq> None)"
  shows "\<exists>jj\<in>set (keys (values_of m)). nj m jj = None \<and> init reg m qs a b wt = Inl (KeyError jj)"
proof (cases "compute_UV (init_state m qs a b wt)")
  case (Inl e)
  from compute_UV_error [OF Inl] obtain jj where
    "jj \<in> set (keys (values_of m))" "e = KeyError jj" "\<not> has_scale m jj"
    by auto
  moreover have "init reg m qs a b wt = Inl e"
    by (simp add: init_def compute_def Inl)
  ultimately show ?thesis
    by (auto simp: has_scale_def dest: keys_has_values)
next
  case (Inr UV)
  from compute_UV_success [OF Inr] have "\<forall>jj\<in>set (keys (values_of m)). nj m jj \<noteq> None"
    by (simp add: has_scale_def)
  with assms show ?thesis by contradiction
qed

lemma init_Inr:
  assumes "init reg m qs a b wt = Inr r"
  obtains wj ps where
    "\<forall>jj\<in>set (keys (values_of m)). nj m jj \<noteq> None"
    "weights (init_state m qs a b wt) [a..b] = Inr wj"
    "collect (reg_col reg (U_matrix m qs) (V_matrix m qs) \<lparr>j1 = a, j2 = b, wtype = wt\<rparr>
       (map real_of_int [a..b]) wj) [0..<length qs] = Inr ps"
    "r = finish (init_state m qs a b wt) (U_matrix m qs) (V_matrix m qs) ps"
proof -
  have all: "\<forall>jj\<in>set (keys (values_of m)). nj m jj \<noteq> None"
  proof (rule ccontr)
    assume "\<not> ?thesis"
    from init_Inl_stats [OF this, of reg qs a b wt] show False
      using assms by auto
  qed
  show ?thesis
    using assms that [OF all] unfolding init_eq [OF all]
    by (auto split: sum.splits)
qed

lemma weights_init:
  "weights (init_state m qs a b wt) x =
     (if wt = 1
      then (case nj_loop m [a..b] [] of Inl e \<Rightarrow> Inl e | Inr ns \<Rightarrow> Inr (map real_of_int ns))
      else Inr (replicate (length x) 1))"
  by (simp add: weights_def get_nj_interv_def np_arange_def np_ones_def)

lemma finish_simps [simp]:
  "U (finish s Um Vm ps) = Some Um"
  "V (finish s Um Vm ps) = Some Vm"
  "Dq (finish s Um Vm ps) = Some (map fst ps)"
  "hq (finish s Um Vm ps) = Some (map snd ps)"
  "q (finish s Um Vm ps) = q s"
  "mrq (finish s Um Vm ps) = mrq s"
  "j (finish s Um Vm ps) = j s"
  "wt_param (finish s Um Vm ps) = wt_param s"
  by (simp_all add: finish_def)

lemma collect_all:
  "(\<And>i. i \<in> set is \<Longrightarrow> \<exists>v. f i = Inr v) \<Longrightarrow> \<exists>vs. collect f is = Inr vs"
proof (induction "is")
  case Nil
  then show ?case by simp
next
  case (Cons i "is")
  obtain v where "f i = Inr v" using Cons.prems [of i] by auto
  moreover obtain vs where "collect f is = Inr vs" using Cons by auto
  ultimately show ?case by simp
qed

lemma linear_regression_Inr:
  "2 \<le> length (remdups x) \<Longrightarrow> \<exists>v. linear_regression x y w = Inr v"
  by (simp add: linear_regression_def Let_def)

lemma linear_regression_Inl:
  "linear_regression x y w = Inl e \<longleftrightarrow> length (remdups x) < 2 \<and> e = DegenerateRegressionError"
  by (auto simp: linear_regression_def Let_def)

lemma reg_col_linear_Inr:
  "2 \<le> length (remdups x) \<Longrightarrow> \<exists>v. reg_col linear_regression Um Vm wp x wj k = Inr v"
  by (auto simp: reg_col_def linear_regression_def Let_def)

lemma reg_col_linear_Inl:
  "length (remdups x) < 2 \<Longrightarrow>
   reg_col linear_regression Um Vm wp x wj k = Inl DegenerateRegressionError"
  by (simp add: reg_col_def linear_regression_def)

lemma mrq3_nj: "\<forall>jj\<in>set (keys (values_of mrq3)). nj mrq3 jj \<noteq> None"
  by (simp add: mrq3_def keys_def)

lemma collect_linear_Inr:
  "2 \<le> length (remdups x) \<Longrightarrow>
   \<exists>ps. collect (reg_col linear_regression Um Vm wp x wj) is = Inr ps"
  by (rule collect_all) (rule reg_col_linear_Inr)

lemma upto_1_3: "[1..3] = [1, 2, 3 :: int]"
  by code_simp

lemma init_mrq3_Inr: "\<exists>r. init linear_regression mrq3 [0] 1 3 0 = Inr r"
proof -
  have x: "2 \<le> length (remdups (map real_of_int [1..3]))"
    by (simp add: upto_1_3)
  obtain ps where "collect (reg_col linear_regression (U_matrix mrq3 [0]) (V_matrix mrq3 [0])
      \<lparr>j1 = 1, j2 = 3, wtype = 0\<rparr> (map real_of_int [1..3]) (replicate (length [1..3 :: int]) 1))
      [0..<length [0 :: real]] = Inr ps"
    using collect_linear_Inr [OF x] by blast
  then show ?thesis
    by (simp add: init_eq [OF mrq3_nj] weights_init)
qed

lemma U_matrix_mrq3: "U_matrix mrq3 [0] = [[0], [0], [0]]"
proof -
  have "U_entry 2 (np_abs vs) 0 = 0" if "length vs = 2" for vs
    using that by (subst U_entry_stat, intro U_stat_zero) auto
  then show ?thesis
    by (simp add: U_matrix_def U_row_def mrq3_def keys_def)
qed

text \<open>
  Claim C9, as stated, fails: after the construction on \<open>mrq3\<close> with the single moment
  order 0, the window 1 to 3 and ordinary weights, the object holds the matrix \<open>U\<close>.
\<close>

theorem statistics_retained_example:
  "map_sum id U (init linear_regression mrq3 [0] 1 3 0) = Inr (Some [[0], [0], [0]])"
proof -
  obtain r where r: "init linear_regression mrq3 [0] 1 3 0 = Inr r"
    using init_mrq3_Inr by blast
  from r have "U r = Some (U_matrix mrq3 [0])"
    by (rule init_Inr) simp
  then show ?thesis
    by (simp add: r U_matrix_mrq3)
qed

text \<open>
  Claim C9, amended. \<open>_compute\<close> computes \<open>U\<close> and \<open>V\<close> once and stores them in the
  attributes \<open>U\<close> and \<open>V\<close> (\<open>self.U = U\<close>, \<open>self.V = V\<close>): after a successful
  construction the object holds the two matrices of the statistics block, one row per
  scale, next to \<open>hq\<close> and \<open>Dq\<close>.
\<close>

theorem statistics_retained:
  assumes "init reg m qs a b wt = Inr r"
  shows "\<exists>Um Vm. compute_UV (init_state m qs a b wt) = Inr (Um, Vm) \<and>
           U r = Some Um \<and> V r = Some Vm \<and> length Um = length (values_of m) \<and>
           length Vm = length (values_of m) \<and> Dq r \<noteq> None \<and> hq r \<noteq> None"
  using assms
proof (rule init_Inr)
  fix wj ps
  assume "\<forall>jj\<in>set (keys (values_of m)). nj m jj \<noteq> None"
    and "r = finish (init_state m qs a b wt) (U_matrix m qs) (V_matrix m qs) ps"
  then show ?thesis
    by (simp add: compute_UV_init U_matrix_def V_matrix_def keys_def)
qed

theorem statistics_retained_witness:
  "\<exists>r Um Vm. init linear_regression mrq3 [0] 1 3 0 = Inr r \<and>
     compute_UV (init_state mrq3 [0] 1 3 0) = Inr (Um, Vm) \<and> U r = Some Um \<and> V r = Some Vm"
proof -
  obtain r where r: "init linear_regression mrq3 [0] 1 3 0 = Inr r"
    using init_mrq3_Inr by blast
  from statistics_retained [OF r] r show ?thesis by blast
qed

section \<open>Slices and columns\<close>

lemma py_slice_map: "py_slice (map f xs) s t = map f (py_slice xs s t)"
  by (simp add: py_slice_def Let_def take_map drop_map)

lemma slice_col_U:
  assumes "k < length qs"
  shows "slice_col (U_matrix m qs) s t k =
         map (\<lambda>jj. U_scale m jj (qs ! k)) (py_slice (keys (values_of m)) s t)"
  using assms
  by (simp add: slice_col_def U_matrix_def py_slice_map U_row_def U_entry_stat U_scale_def)

lemma slice_col_V:
  assumes "k < length qs"
  shows "slice_col (V_matrix m qs) s t k =
         map (\<lambda>jj. V_scale m jj (qs ! k)) (py_slice (keys (values_of m)) s t)"
  using assms
  by (simp add: slice_col_def V_matrix_def py_slice_map V_row_def V_entry_stat V_scale_def)

lemma reg_col_spectrum:
  assumes "k < length qs"
  shows "reg_col reg (U_matrix m qs) (V_matrix m qs) \<lparr>j1 = a, j2 = b, wtype = wt\<rparr> x wj k =
         col_spectrum reg m (py_slice (keys (values_of m)) (a - 1) b) x wj (qs ! k)"
  using assms
  by (simp add: reg_col_def col_spectrum_def slice_col_U slice_col_V
      cong: sum.case_cong prod.case_cong)

lemma collect_reg_col:
  "collect (reg_col reg (U_matrix m qs) (V_matrix m qs) \<lparr>j1 = a, j2 = b, wtype = wt\<rparr> x wj)
     [0..<length qs] =
   collect (\<lambda>k. col_spectrum reg m (py_slice (keys (values_of m)) (a - 1) b) x wj (qs ! k))
     [0..<length qs]"
  by (rule collect_cong) (simp add: reg_col_spectrum)

lemma spectrum_finish [simp]:
  "spectrum (Inr (finish s Um Vm ps)) = Inr (Some (map snd ps), Some (map fst ps))"
  by (simp add: spectrum_def)

lemma spectrum_init:
  assumes "\<forall>jj\<in>set (keys (values_of m)). nj m jj \<noteq> None"
  shows "spectrum (init reg m qs a b wt) =
     (case weights (init_state m qs a b wt) [a..b] of
        Inl e \<Rightarrow> Inl e
      | Inr wj \<Rightarrow>
         (case collect (\<lambda>k. col_spectrum reg m (py_slice (keys (values_of m)) (a - 1) b)
                              (map real_of_int [a..b]) wj (qs ! k)) [0..<length qs] of
            Inl e \<Rightarrow> Inl e
          | Inr ps \<Rightarrow> Inr (Some (map snd ps), Some (map fst ps))))"
  unfolding init_eq [OF assms] collect_reg_col
  by (auto simp: spectrum_def split: sum.splits)

lemma weights_init_indep:
  "weights (init_state m qs a b wt) x = weights (init_state m qs' a b wt) x"
  by (simp add: weights_init)

section \<open>The shape of the result\<close>

text \<open>
  Claim C8. After a successful construction, \<open>Dq\<close> and \<open>hq\<close> have the length of the
  sequence of moment orders, whatever the window is, and entry \<open>i\<close> belongs to the
  moment order \<open>q[i]\<close>: it is the entry the construction with the single moment order
  \<open>q[i]\<close> produces.
\<close>

theorem spectrum_shape:
  assumes "init reg m qs a b wt = Inr r"
  shows "\<exists>D h. Dq r = Some D \<and> hq r = Some h \<and> length D = length qs \<and> length h = length qs \<and>
           q r = qs \<and>
           (\<forall>i<length qs. spectrum (init reg m [qs ! i] a b wt) = Inr (Some [h ! i], Some [D ! i]))"
  using assms
proof (rule init_Inr)
  fix wj ps
  let ?js = "py_slice (keys (values_of m)) (a - 1) b"
  let ?x = "map real_of_int [a..b]"
  assume all: "\<forall>jj\<in>set (keys (values_of m)). nj m jj \<noteq> None"
    and wj: "weights (init_state m qs a b wt) [a..b] = Inr wj"
    and ps: "collect (reg_col reg (U_matrix m qs) (V_matrix m qs) \<lparr>j1 = a, j2 = b, wtype = wt\<rparr>
               ?x wj) [0..<length qs] = Inr ps"
    and r: "r = finish (init_state m qs a b wt) (U_matrix m qs) (V_matrix m qs) ps"
  have len: "length ps = length qs"
    using collect_length [OF ps] by simp
  have ps': "collect (\<lambda>k. col_spectrum reg m ?js ?x wj (qs ! k)) [0..<length qs] = Inr ps"
    using ps by (simp only: collect_reg_col)
  have single: "spectrum (init reg m [qs ! i] a b wt) =
                Inr (Some [map snd ps ! i], Some [map fst ps ! i])" if "i < length qs" for i
  proof -
    have "col_spectrum reg m ?js ?x wj (qs ! i) = Inr (ps ! i)"
      using collect_nth [OF ps', of i] that by simp
    moreover have "weights (init_state m [qs ! i] a b wt) [a..b] = Inr wj"
      using wj by (simp add: weights_init)
    ultimately show ?thesis
      using that len by (simp add: spectrum_init [OF all])
  qed
  show ?thesis
    using r len single by simp
qed

theorem spectrum_shape_witness:
  "\<exists>r D h. init linear_regression mrq3 [0] 1 3 0 = Inr r \<and> Dq r = Some D \<and> hq r = Some h \<and>
     length D = 1 \<and> length h = 1"
proof -
  obtain r where r: "init linear_regression mrq3 [0] 1 3 0 = Inr r"
    using init_mrq3_Inr by blast
  from spectrum_shape [OF r] r show ?thesis by auto
qed

section \<open>The window of scales\<close>

lemma py_slice_upto:
  assumes "1 \<le> a" "a \<le> b"
  shows "py_slice [1..jmax] (a - 1) b = [a..min b jmax]"
proof (cases "a \<le> jmax")
  case True
  let ?c = "min b jmax"
  have c: "a \<le> ?c" "?c \<le> jmax" using assms True by simp_all
  have split: "[1..jmax] = [1..a - 1] @ [a..?c] @ [?c + 1..jmax]"
    using upto_split1 [of 1 a jmax] upto_split2 [of a ?c jmax] assms True c by simp
  have start: "slice_index (a - 1) (length [1..jmax]) = length [1..a - 1]"
    using assms True by (simp add: slice_index_def)
  have stop: "slice_index b (length [1..jmax]) - length [1..a - 1] = length [a..?c]"
    using assms True by (auto simp: slice_index_def min_def)
  show ?thesis
    unfolding py_slice_def Let_def start stop
    by (subst split) simp
next
  case False
  then have "slice_index (a - 1) (length [1..jmax]) = length [1..jmax]"
    using assms by (auto simp: slice_index_def)
  then show ?thesis
    using False by (simp add: py_slice_def)
qed

lemma nj_loop_Inr:
  "nj_loop m js acc = Inr ns \<Longrightarrow>
   (\<forall>jj\<in>set js. nj m jj \<noteq> None) \<and> ns = acc @ map (\<lambda>jj. the (nj m jj)) js"
proof (induction js arbitrary: acc)
  case Nil
  then show ?case by simp
next
  case (Cons jj js)
  then obtain n where n: "nj m jj = Some n" and rest: "nj_loop m js (acc @ [n]) = Inr ns"
    by (auto simp: dict_get_def split: option.splits)
  from Cons.IH [OF rest] n show ?case by simp
qed

lemma weights_window:
  assumes "weights (init_state m qs a b wt) [a..b] = Inr wj"
  shows "wj = window_weights m a b wt"
proof (cases "wt = 1")
  case True
  then obtain ns where "nj_loop m [a..b] [] = Inr ns" "wj = map real_of_int ns"
    using assms by (auto simp: weights_init split: sum.splits)
  then show ?thesis
    using True nj_loop_Inr [of m "[a..b]" "[]" ns] by (simp add: window_weights_def comp_def)
next
  case False
  then show ?thesis
    using assms by (auto simp: weights_init window_weights_def)
qed

lemma col_spectrum_Inr:
  assumes "col_spectrum reg m js x wj p = Inr (d, s)"
  shows "\<exists>slope_D icpt_D slope_h icpt_h.
           reg x (map (\<lambda>jj. U_scale m jj p) js) wj = Inr (slope_D, icpt_D) \<and>
           reg x (map (\<lambda>jj. V_scale m jj p) js) wj = Inr (slope_h, icpt_h) \<and>
           d = 1 + slope_D \<and> s = slope_h"
  using assms by (auto simp: col_spectrum_def split: sum.splits prod.splits)

section \<open>The regressions\<close>

text \<open>
  Claim C2. On a multiresolution quantity with the scales 1 to \<open>jmax\<close> and a window
  \<open>1 \<le> j1 \<le> j2 \<le> jmax\<close>, a successful construction leaves, for every moment order
  \<open>q[i]\<close>: \<open>Dq[i]\<close> is 1 plus the slope of the regression of \<open>U[j1..j2, q[i]]\<close> against
  \<open>x = j1, ..., j2\<close>, and \<open>hq[i]\<close> is the slope of the regression of
  \<open>V[j1..j2, q[i]]\<close> against \<open>x\<close>, both with the weights \<open>wj\<close> (all ones, or
  \<open>nj[x[k]]\<close>); the intercepts are not kept.
\<close>

theorem spectrum_regressions:
  assumes "init reg m qs a b wt = Inr r"
    and "keys (values_of m) = [1..jmax]" and "1 \<le> a" and "a \<le> b" and "b \<le> jmax"
  shows "\<exists>D h. Dq r = Some D \<and> hq r = Some h \<and>
           (\<forall>i<length qs. \<exists>slope_D icpt_D slope_h icpt_h.
              reg (map real_of_int [a..b]) (map (\<lambda>jj. U_scale m jj (qs ! i)) [a..b])
                (window_weights m a b wt) = Inr (slope_D, icpt_D) \<and>
              reg (map real_of_int [a..b]) (map (\<lambda>jj. V_scale m jj (qs ! i)) [a..b])
                (window_weights m a b wt) = Inr (slope_h, icpt_h) \<and>
              D ! i = 1 + slope_D \<and> h ! i = slope_h)"
  using assms(1)
proof (rule init_Inr)
  fix wj ps
  let ?x = "map real_of_int [a..b]"
  assume wj: "weights (init_state m qs a b wt) [a..b] = Inr wj"
    and ps: "collect (reg_col reg (U_matrix m qs) (V_matrix m qs) \<lparr>j1 = a, j2 = b, wtype = wt\<rparr>
               ?x wj) [0..<length qs] = Inr ps"
    and r: "r = finish (init_state m qs a b wt) (U_matrix m qs) (V_matrix m qs) ps"
  have js: "py_slice (keys (values_of m)) (a - 1) b = [a..b]"
    using assms(2-5) by (simp add: py_slice_upto)
  have w: "wj = window_weights m a b wt"
    using wj by (rule weights_window)
  have len: "length ps = length qs"
    using collect_length [OF ps] by simp
  have ps': "collect (\<lambda>k. col_spectrum reg m [a..b] ?x wj (qs ! k)) [0..<length qs] = Inr ps"
    using ps by (simp only: collect_reg_col js)
  have "\<exists>slope_D icpt_D slope_h icpt_h.
           reg ?x (map (\<lambda>jj. U_scale m jj (qs ! i)) [a..b]) wj = Inr (slope_D, icpt_D) \<and>
           reg ?x (map (\<lambda>jj. V_scale m jj (qs ! i)) [a..b]) wj = Inr (slope_h, icpt_h) \<and>
           map fst ps ! i = 1 + slope_D \<and> map snd ps ! i = slope_h" if "i < length qs" for i
  proof -
    have "col_spectrum reg m [a..b] ?x wj (qs ! i) = Inr (fst (ps ! i), snd (ps ! i))"
      using collect_nth [OF ps', of i] that by simp
    from col_spectrum_Inr [OF this] show ?thesis
      using that len by simp
  qed
  then show ?thesis
    using r w by simp
qed

lemma distinct_window: "length (remdups (map real_of_int [a..b])) = nat (b - a + 1)"
proof -
  have "distinct (map real_of_int [a..b])"
    by (simp add: distinct_map inj_on_def)
  then show ?thesis
    by (simp add: distinct_remdups_id)
qed

lemma init_linear_Inr:
  assumes "\<forall>jj\<in>set (keys (values_of m)). nj m jj \<noteq> None"
    and "wt = 1 \<longrightarrow> (\<forall>jj\<in>set [a..b]. nj m jj \<noteq> None)" and "a < b"
  shows "\<exists>r. init linear_regression m qs a b wt = Inr r"
proof -
  obtain wj where wj: "weights (init_state m qs a b wt) [a..b] = Inr wj"
    using assms(2) by (cases "wt = 1") (simp_all add: weights_init nj_loop_all)
  have "2 \<le> length (remdups (map real_of_int [a..b]))"
    using assms(3) by (simp add: distinct_window)
  from collect_linear_Inr [OF this] obtain ps where
    "collect (reg_col linear_regression (U_matrix m qs) (V_matrix m qs)
       \<lparr>j1 = a, j2 = b, wtype = wt\<rparr> (map real_of_int [a..b]) wj) [0..<length qs] = Inr ps"
    by blast
  then show ?thesis
    by (simp add: init_eq [OF assms(1)] wj)
qed

theorem spectrum_regressions_witness:
  "\<exists>r D h slope_D icpt_D slope_h icpt_h.
     init linear_regression mrq3 [0, 2] 2 3 1 = Inr r \<and> Dq r = Some D \<and> hq r = Some h \<and>
     linear_regression [2, 3] [U_scale mrq3 2 2, U_scale mrq3 3 2] [2, 2] = Inr (slope_D, icpt_D) \<and>
     linear_regression [2, 3] [V_scale mrq3 2 2, V_scale mrq3 3 2] [2, 2] = Inr (slope_h, icpt_h) \<and>
     D ! 1 = 1 + slope_D \<and> h ! 1 = slope_h"
proof -
  have up: "[2..3] = [2, 3 :: int]" by code_simp
  have "\<forall>jj\<in>set [2..3]. nj mrq3 jj \<noteq> None"
    by (simp add: up mrq3_def)
  then obtain r where r: "init linear_regression mrq3 [0, 2] 2 3 1 = Inr r"
    using init_linear_Inr [OF mrq3_nj, of 1 2 3 "[0, 2]"] by auto
  have k: "keys (values_of mrq3) = [1..3]"
    by (simp add: mrq3_def keys_def upto_1_3)
  have w: "window_weights mrq3 2 3 1 = [2, 2]"
    by (simp add: window_weights_def up mrq3_def)
  from spectrum_regressions [OF r k] obtain D h where
    "Dq r = Some D" "hq r = Some h"
    and *: "\<forall>i<length [0, 2 :: real]. \<exists>slope_D icpt_D slope_h icpt_h.
              linear_regression (map real_of_int [2..3])
                (map (\<lambda>jj. U_scale mrq3 jj ([0, 2] ! i)) [2..3])
                (window_weights mrq3 2 3 1) = Inr (slope_D, icpt_D) \<and>
              linear_regression (map real_of_int [2..3])
                (map (\<lambda>jj. V_scale mrq3 jj ([0, 2] ! i)) [2..3])
                (window_weights mrq3 2 3 1) = Inr (slope_h, icpt_h) \<and>
              D ! i = 1 + slope_D \<and> h ! i = slope_h"
    by auto
  moreover have "1 < length [0, 2 :: real]" by simp
  note * [rule_format, OF this]
  ultimately show ?thesis
    using r by (simp add: up w)
qed

section \<open>Scales outside the window\<close>

lemma col_spectrum_cong:
  assumes "\<forall>jj\<in>set js. U_scale m jj p = U_scale m' jj p \<and> V_scale m jj p = V_scale m' jj p"
  shows "col_spectrum reg m js x wj p = col_spectrum reg m' js x wj p"
proof -
  have eq: "map (\<lambda>jj. U_scale m jj p) js = map (\<lambda>jj. U_scale m' jj p) js"
    "map (\<lambda>jj. V_scale m jj p) js = map (\<lambda>jj. V_scale m' jj p) js"
    using assms by simp_all
  show ?thesis
    unfolding col_spectrum_def eq ..
qed

lemma weights_cong:
  assumes "\<forall>jj\<in>set [a..b]. nj m jj = nj m' jj"
  shows "weights (init_state m qs a b wt) x = weights (init_state m' qs a b wt) x"
  using nj_loop_cong [OF assms, of "[]"] by (simp add: weights_init)

text \<open>
  Claim C10, amended. For a window with \<open>1 \<le> j1 \<le> j2\<close>: two multiresolution
  quantities with the scales 1 to \<open>jmax\<close>, an \<open>nj\<close> entry at every scale, and the
  same \<open>nj[j]\<close> and \<open>values[j]\<close> at every scale of the window give the same outcome
  \<open>(hq, Dq)\<close> for the same \<open>q\<close>, \<open>j1\<close>, \<open>j2\<close>, \<open>wtype\<close> and regression
  routine, although the matrices \<open>U\<close> and \<open>V\<close> a successful construction holds
  have a row for every scale.
\<close>

theorem window_only:
  assumes "keys (values_of mA) = [1..jmax]" and "keys (values_of mB) = [1..jmax]"
    and "\<forall>jj\<in>set [1..jmax]. nj mA jj \<noteq> None \<and> nj mB jj \<noteq> None"
    and "1 \<le> a" and "a \<le> b"
    and "\<forall>jj\<in>set [a..b]. nj mA jj = nj mB jj \<and>
           map_of (values_of mA) jj = map_of (values_of mB) jj"
  shows "spectrum (init reg mA qs a b wt) = spectrum (init reg mB qs a b wt) \<and>
         (\<forall>r. init reg mA qs a b wt = Inr r \<longrightarrow>
            (\<exists>Um Vm. U r = Some Um \<and> V r = Some Vm \<and>
               length Um = nat jmax \<and> length Vm = nat jmax))"
proof
  let ?js = "[a..min b jmax]"
  let ?x = "map real_of_int [a..b]"
  have njA: "\<forall>jj\<in>set (keys (values_of mA)). nj mA jj \<noteq> None"
    and njB: "\<forall>jj\<in>set (keys (values_of mB)). nj mB jj \<noteq> None"
    using assms(1-3) by simp_all
  have jsA: "py_slice (keys (values_of mA)) (a - 1) b = ?js"
    and jsB: "py_slice (keys (values_of mB)) (a - 1) b = ?js"
    using assms(1,2,4,5) by (simp_all add: py_slice_upto)
  have w: "weights (init_state mA qs a b wt) [a..b] = weights (init_state mB qs a b wt) [a..b]"
    using assms(6) by (intro weights_cong) simp
  have col: "col_spectrum reg mA ?js ?x wj p = col_spectrum reg mB ?js ?x wj p" for wj p
  proof (rule col_spectrum_cong)
    show "\<forall>jj\<in>set ?js. U_scale mA jj p = U_scale mB jj p \<and> V_scale mA jj p = V_scale mB jj p"
      using assms(6) by (auto simp: U_scale_def V_scale_def)
  qed
  show "spectrum (init reg mA qs a b wt) = spectrum (init reg mB qs a b wt)"
    unfolding spectrum_init [OF njA] spectrum_init [OF njB] jsA jsB w col ..
  show "\<forall>r. init reg mA qs a b wt = Inr r \<longrightarrow>
            (\<exists>Um Vm. U r = Some Um \<and> V r = Some Vm \<and>
               length Um = nat jmax \<and> length Vm = nat jmax)"
  proof (intro allI impI)
    fix r
    assume "init reg mA qs a b wt = Inr r"
    then show "\<exists>Um Vm. U r = Some Um \<and> V r = Some Vm \<and>
               length Um = nat jmax \<and> length Vm = nat jmax"
    proof (rule init_Inr)
      fix wj ps
      assume "r = finish (init_state mA qs a b wt) (U_matrix mA qs) (V_matrix mA qs) ps"
      then show ?thesis
        using assms(1) by (simp add: U_matrix_def V_matrix_def)
    qed
  qed
qed

theorem window_only_witness:
  "spectrum (init linear_regression mrq3 [0, 2] 1 2 1) =
   spectrum (init linear_regression mrq3_alt [0, 2] 1 2 1) \<and>
   values_of mrq3 ! 2 \<noteq> values_of mrq3_alt ! 2 \<and> nj mrq3 3 \<noteq> nj mrq3_alt 3"
proof -
  have up: "[1..2] = [1, 2 :: int]" by code_simp
  have kA: "keys (values_of mrq3) = [1..3]"
    by (simp add: mrq3_def keys_def upto_1_3)
  have kB: "keys (values_of mrq3_alt) = [1..3]"
    by (simp add: mrq3_alt_def keys_def upto_1_3)
  have all: "\<forall>jj\<in>set [1..3]. nj mrq3 jj \<noteq> None \<and> nj mrq3_alt jj \<noteq> None"
    by (simp add: upto_1_3 mrq3_def mrq3_alt_def)
  have same: "\<forall>jj\<in>set [1..2]. nj mrq3 jj = nj mrq3_alt jj \<and>
           map_of (values_of mrq3) jj = map_of (values_of mrq3_alt) jj"
    by (simp add: up mrq3_def mrq3_alt_def)
  have "spectrum (init linear_regression mrq3 [0, 2] 1 2 1) =
        spectrum (init linear_regression mrq3_alt [0, 2] 1 2 1)"
    using window_only [OF kA kB all _ _ same, of linear_regression "[0, 2]" 1] by simp
  then show ?thesis
    by (simp add: mrq3_def mrq3_alt_def)
qed

section \<open>Inputs the specification rejects\<close>

lemma init_weights_Inl:
  assumes "\<forall>jj\<in>set (keys (values_of m)). nj m jj \<noteq> None"
    and "weights (init_state m qs a b wt) [a..b] = Inl e"
  shows "init reg m qs a b wt = Inl e" and "\<exists>jj\<in>set [a..b]. e = KeyError jj \<and> nj m jj = None"
    and "wt = 1"
proof -
  show "init reg m qs a b wt = Inl e"
    by (simp add: init_eq [OF assms(1)] assms(2))
  show wt: "wt = 1"
    using assms(2) by (auto simp: weights_init split: if_splits)
  have "nj_loop m [a..b] [] = Inl e"
    using assms(2) wt by (auto simp: weights_init split: sum.splits)
  then show "\<exists>jj\<in>set [a..b]. e = KeyError jj \<and> nj m jj = None"
    by (rule nj_loop_error)
qed

lemma reg_col_error:
  "reg_col reg Um Vm wp x wj k = Inl e \<Longrightarrow> \<exists>y. reg x y wj = Inl e"
  by (auto simp: reg_col_def split: sum.splits prod.splits)

text \<open>
  Claim C5, as stated, fails: with an empty sequence of moment orders the construction
  on \<open>mrq3\<close> succeeds, and \<open>hq\<close> and \<open>Dq\<close> are empty.
\<close>

theorem empty_q_example:
  "spectrum (init linear_regression mrq3 [] 1 3 0) = Inr (Some [], Some [])"
  by (simp add: spectrum_init [OF mrq3_nj] weights_init)

text \<open>
  Claim C5, amended. The constructor does not check that \<open>q\<close> is non-empty. With an
  empty \<open>q\<close> the regression routine is never called: the construction returns an
  estimator whose \<open>hq\<close> and \<open>Dq\<close> are empty, unless a scale has no \<open>nj\<close> entry,
  which is a KeyError.
\<close>

theorem empty_q_outcome:
  "spectrum (init reg m [] a b wt) = Inr (Some [], Some []) \<or>
   (\<exists>jj. init reg m [] a b wt = Inl (KeyError jj) \<and> nj m jj = None)"
proof (cases "\<forall>jj\<in>set (keys (values_of m)). nj m jj \<noteq> None")
  case all: True
  show ?thesis
  proof (cases "weights (init_state m [] a b wt) [a..b]")
    case (Inl e)
    from init_weights_Inl(1,2) [OF all Inl] show ?thesis by blast
  next
    case (Inr wj)
    then show ?thesis
      by (simp add: spectrum_init [OF all])
  qed
next
  case False
  from init_Inl_stats [OF this] show ?thesis by blast
qed

lemma upto_1_5: "[1..5] = [1, 2, 3, 4, 5 :: int]"
  by code_simp

lemma upto_neg: "[- 2..- 1] = [- 2, - 1 :: int]"
  by code_simp

lemma V_scale_mrq3: "V_scale mrq3 1 0 = 0" "V_scale mrq3 2 0 = 1"
  by (simp_all add: V_scale_def V_stat_def R_weight_def power_elem_def mrq3_def
      lessThan_Suc eval_nat_numeral)

lemma U_scale_mrq3: "U_scale mrq3 1 0 = 0" "U_scale mrq3 2 0 = 0"
  by (simp_all add: U_scale_def U_stat_zero mrq3_def)

lemma mrq3_flat_nj: "\<forall>jj\<in>set (keys (values_of mrq3_flat)). nj mrq3_flat jj \<noteq> None"
  by (simp add: mrq3_flat_def keys_def)

lemma V_scale_mrq3_flat: "V_scale mrq3_flat 1 0 = 0" "V_scale mrq3_flat 2 0 = 0"
  by (simp_all add: V_scale_def V_stat_def R_weight_def power_elem_def mrq3_flat_def
      lessThan_Suc eval_nat_numeral)

lemma U_scale_mrq3_flat: "U_scale mrq3_flat 1 0 = 0" "U_scale mrq3_flat 2 0 = 0"
  by (simp_all add: U_scale_def U_stat_zero mrq3_flat_def)

text \<open>
  Claim C10, as stated, fails: \<open>mrq3\<close> and \<open>mrq3_flat\<close> have the scales 1 to 3 and
  agree at every scale of the window \<open>j1 = -2\<close>, \<open>j2 = -1\<close> (neither has an entry
  there); they differ at scale 2 only. The slice \<open>U[j1-1:j2]\<close> selects the rows of
  the scales 1 and 2, and the two constructions give \<open>hq = [1]\<close> and \<open>hq = [0]\<close>.
\<close>

theorem window_only_example:
  "keys (values_of mrq3) = [1, 2, 3] \<and> keys (values_of mrq3_flat) = [1, 2, 3] \<and>
   list_all (\<lambda>jj. nj mrq3 jj = nj mrq3_flat jj \<and>
                   map_of (values_of mrq3) jj = map_of (values_of mrq3_flat) jj) [- 2, - 1] \<and>
   spectrum (init linear_regression mrq3 [0] (- 2) (- 1) 0) = Inr (Some [1], Some [1]) \<and>
   spectrum (init linear_regression mrq3_flat [0] (- 2) (- 1) 0) = Inr (Some [0], Some [1])"
proof -
  have k: "keys (values_of mrq3) = [1, 2, 3]" "keys (values_of mrq3_flat) = [1, 2, 3]"
    by (simp_all add: mrq3_def mrq3_flat_def keys_def)
  have agree: "list_all (\<lambda>jj. nj mrq3 jj = nj mrq3_flat jj \<and>
                   map_of (values_of mrq3) jj = map_of (values_of mrq3_flat) jj) [- 2, - 1]"
    by (simp add: mrq3_def mrq3_flat_def)
  have js: "py_slice (keys (values_of mrq3)) (- 3) (- 1) = [1, 2]"
    "py_slice (keys (values_of mrq3_flat)) (- 3) (- 1) = [1, 2]"
    by (simp_all add: k py_slice_def slice_index_def)
  have w: "weights (init_state mrq3 [0] (- 2) (- 1) 0) [- 2..- 1] = Inr [1, 1]"
    "weights (init_state mrq3_flat [0] (- 2) (- 1) 0) [- 2..- 1] = Inr [1, 1]"
    by (simp_all add: weights_init upto_neg)
  have col: "col_spectrum linear_regression mrq3 [1, 2] [- 2, - 1] [1, 1] 0 = Inr (1, 1)"
    by (simp add: col_spectrum_def linear_regression_def wsum_def U_scale_mrq3 V_scale_mrq3)
  have col_flat:
    "col_spectrum linear_regression mrq3_flat [1, 2] [- 2, - 1] [1, 1] 0 = Inr (1, 0)"
    by (simp add: col_spectrum_def linear_regression_def wsum_def U_scale_mrq3_flat
        V_scale_mrq3_flat)
  have A: "spectrum (init linear_regression mrq3 [0] (- 2) (- 1) 0) = Inr (Some [1], Some [1])"
    unfolding spectrum_init [OF mrq3_nj] w(1)
    by (simp add: js upto_neg col)
  have B: "spectrum (init linear_regression mrq3_flat [0] (- 2) (- 1) 0) =
           Inr (Some [0], Some [1])"
    unfolding spectrum_init [OF mrq3_flat_nj] w(2)
    by (simp add: js upto_neg col_flat)
  from k agree A B show ?thesis by simp
qed

text \<open>
  Claim C3, as stated, fails: on \<open>mrq3\<close>, whose scales are 1 to 3, the window
  \<open>j1 = -2\<close>, \<open>j2 = -1\<close> lies outside the scales, and the construction returns a
  result, computed from the rows of the scales 1 and 2 that the slice
  \<open>U[j1-1:j2]\<close> selects.
\<close>

theorem negative_window_example:
  "spectrum (init linear_regression mrq3 [0] (- 2) (- 1) 0) = Inr (Some [1], Some [1])"
proof -
  have js: "py_slice (keys (values_of mrq3)) (- 3) (- 1) = [1, 2]"
    by (simp add: py_slice_def slice_index_def mrq3_def keys_def)
  have w: "weights (init_state mrq3 [0] (- 2) (- 1) 0) [- 2..- 1] = Inr [1, 1]"
    by (simp add: weights_init upto_neg)
  have col: "col_spectrum linear_regression mrq3 [1, 2] [- 2, - 1] [1, 1] 0 = Inr (1, 1)"
    by (simp add: col_spectrum_def linear_regression_def wsum_def U_scale_mrq3 V_scale_mrq3)
  show ?thesis
    unfolding spectrum_init [OF mrq3_nj] w
    by (simp add: js upto_neg col)
qed

text \<open>
  Claim C3, amended. The constructor does not check \<open>j1\<close> and \<open>j2\<close> against the
  scales and raises no \<open>InvalidRangeError\<close> of its own: when a construction fails, the
  error is a KeyError for a scale that has no \<open>nj\<close> entry (a scale of the quantity, or
  in the weighted mode a scale of \<open>range(j1, j2+1)\<close>), or it is an error the regression
  routine raised.
\<close>

theorem range_errors:
  assumes "init reg m qs a b wt = Inl e"
  shows "(\<exists>jj. e = KeyError jj \<and> nj m jj = None \<and>
            (jj \<in> set (keys (values_of m)) \<or> wt = 1 \<and> a \<le> jj \<and> jj \<le> b)) \<or>
         (\<exists>x y w. reg x y w = Inl e)"
proof (cases "\<forall>jj\<in>set (keys (values_of m)). nj m jj \<noteq> None")
  case all: True
  show ?thesis
  proof (cases "weights (init_state m qs a b wt) [a..b]")
    case (Inl e')
    from init_weights_Inl [OF all Inl] assms show ?thesis by auto
  next
    case (Inr wj)
    with assms obtain k where
      "reg_col reg (U_matrix m qs) (V_matrix m qs) \<lparr>j1 = a, j2 = b, wtype = wt\<rparr>
         (map real_of_int [a..b]) wj k = Inl e"
      unfolding init_eq [OF all] by (auto split: sum.splits dest: collect_error)
    from reg_col_error [OF this] show ?thesis by blast
  qed
next
  case False
  from init_Inl_stats [OF this, of reg qs a b wt] assms show ?thesis by auto
qed

theorem range_errors_witness:
  "init linear_regression mrq3 [0] 1 5 1 = Inl (KeyError 4) \<and>
   ((\<exists>jj. KeyError 4 = KeyError jj \<and> nj mrq3 jj = None \<and>
        (jj \<in> set (keys (values_of mrq3)) \<or> (1::int) = 1 \<and> 1 \<le> jj \<and> jj \<le> 5)) \<or>
    (\<exists>x y w. linear_regression x y w = Inl (KeyError 4)))"
proof -
  have "weights (init_state mrq3 [0] 1 5 1) [1..5] = Inl (KeyError 4)"
    by (simp add: weights_init upto_1_5 dict_get_def mrq3_def)
  then have run: "init linear_regression mrq3 [0] 1 5 1 = Inl (KeyError 4)"
    unfolding init_eq [OF mrq3_nj] by simp
  from range_errors [OF run] run show ?thesis by simp
qed

text \<open>
  Claim C4, as stated, fails: with an empty sequence of moment orders and \<open>j1 = j2 = 2\<close>
  the construction on \<open>mrq3\<close> succeeds.
\<close>

theorem single_scale_example:
  "spectrum (init linear_regression mrq3 [] 2 2 1) = Inr (Some [], Some [])"
proof -
  have "[2..2] = [2 :: int]" by code_simp
  then have "weights (init_state mrq3 [] 2 2 1) [2..2] = Inr [2]"
    by (simp add: weights_init dict_get_def mrq3_def)
  then show ?thesis
    unfolding spectrum_init [OF mrq3_nj] by simp
qed

text \<open>
  Claim C4, amended. With the regression routine of the specification, a non-empty
  sequence of moment orders and \<open>j1 = j2\<close>, the construction on a multiresolution
  quantity whose scales all have an \<open>nj\<close> entry (in the weighted mode, \<open>j1\<close> too) fails
  with the \<open>DegenerateRegressionError\<close> of the regression routine.
\<close>

theorem single_scale_degenerate:
  assumes "\<forall>jj\<in>set (keys (values_of m)). nj m jj \<noteq> None"
    and "qs \<noteq> []" and "wt = 1 \<longrightarrow> nj m a \<noteq> None"
  shows "init linear_regression m qs a a wt = Inl DegenerateRegressionError"
proof -
  obtain wj where wj: "weights (init_state m qs a a wt) [a..a] = Inr wj"
    using assms(3) by (cases "wt = 1") (auto simp: weights_init dict_get_def)
  obtain p ps where qs: "qs = p # ps"
    using assms(2) by (cases qs) auto
  have "length (remdups (map real_of_int [a..a])) < 2"
    by (simp add: distinct_window)
  then have "reg_col linear_regression (U_matrix m qs) (V_matrix m qs)
       \<lparr>j1 = a, j2 = a, wtype = wt\<rparr> (map real_of_int [a..a]) wj 0 = Inl DegenerateRegressionError"
    by (rule reg_col_linear_Inl)
  then have "collect (reg_col linear_regression (U_matrix m qs) (V_matrix m qs)
       \<lparr>j1 = a, j2 = a, wtype = wt\<rparr> (map real_of_int [a..a]) wj) [0..<length qs] =
       Inl DegenerateRegressionError"
    by (simp add: qs upt_rec)
  then show ?thesis
    by (simp only: init_eq [OF assms(1)] wj sum.case)
qed

theorem single_scale_degenerate_witness:
  "init linear_regression mrq3 [0, 2] 2 2 1 = Inl DegenerateRegressionError"
proof -
  have "nj mrq3 2 \<noteq> None" by (simp add: mrq3_def)
  then show ?thesis
    using single_scale_degenerate [OF mrq3_nj, of "[0, 2]" 1 2] by simp
qed

section \<open>Ordinary and weighted regression\<close>

lemma wsum_scale: "wsum (map ((*) k) w) f = k * wsum w f"
  unfolding wsum_def
proof (induction w arbitrary: f)
  case Nil
  then show ?case by simp
next
  case (Cons v w)
  then show ?case by (cases f) (simp_all add: algebra_simps)
qed

lemma sum_list_scale: "sum_list (map ((*) k) w) = k * sum_list (w :: real list)"
  by (induction w) (simp_all add: algebra_simps)

lemma ratio_scale:
  fixes k :: real
  assumes "k \<noteq> 0"
  shows "(k * p * (k * t) - k * r * (k * u)) / (k * s0 * (k * s2) - k * s1 * (k * s1)) =
         (p * t - r * u) / (s0 * s2 - s1 * s1)"
proof -
  have "k * p * (k * t) - k * r * (k * u) = (k * k) * (p * t - r * u)"
    and "k * s0 * (k * s2) - k * s1 * (k * s1) = (k * k) * (s0 * s2 - s1 * s1)"
    by (simp_all add: algebra_simps)
  then show ?thesis
    using assms by simp
qed

lemma linear_regression_scale:
  assumes "k \<noteq> 0"
  shows "linear_regression x y (map ((*) k) w) = linear_regression x y w"
  using assms
  by (simp add: linear_regression_def Let_def wsum_scale sum_list_scale ratio_scale
      del: mult_cancel_left)

lemma col_spectrum_scale:
  assumes "k \<noteq> 0"
  shows "col_spectrum linear_regression m js x (map ((*) k) w) p =
         col_spectrum linear_regression m js x w p"
  unfolding col_spectrum_def linear_regression_scale [OF assms] ..

lemma compute_UV_wtype:
  "compute_UV (init_state m qs a b wt) = compute_UV (init_state m qs a b wt')"
  by (simp add: compute_UV_def)

lemma init_UV_Inl:
  "compute_UV (init_state m qs a b wt) = Inl e \<Longrightarrow> init reg m qs a b wt = Inl e"
  by (simp add: init_def compute_def)

text \<open>
  Claim C7. With the regression routine of the specification: when \<open>nj\<close> has the same
  positive value at every scale of the window, the construction with ordinary weights
  (any \<open>wtype\<close> other than 1) and the construction with the weights by count
  (\<open>wtype = 1\<close>) have the same outcome \<open>(hq, Dq)\<close>, all other inputs being equal.
\<close>

theorem constant_count_modes:
  assumes "\<forall>jj\<in>set [a..b]. nj m jj = Some c" and "0 < c" and "wt \<noteq> 1"
  shows "spectrum (init linear_regression m qs a b wt) =
         spectrum (init linear_regression m qs a b 1)"
proof (cases "compute_UV (init_state m qs a b wt)")
  case (Inl e)
  then have "compute_UV (init_state m qs a b 1) = Inl e"
    by (simp add: compute_UV_wtype [of m qs a b 1 wt])
  with Inl show ?thesis
    by (simp add: init_UV_Inl)
next
  case (Inr UV)
  from compute_UV_success [OF Inr] have all: "\<forall>jj\<in>set (keys (values_of m)). nj m jj \<noteq> None"
    by (simp add: has_scale_def)
  let ?n = "length [a..b]"
  have ord: "weights (init_state m qs a b wt) [a..b] = Inr (replicate ?n 1)"
    using assms(3) by (simp add: weights_init)
  have "\<forall>jj\<in>set [a..b]. nj m jj \<noteq> None"
    using assms(1) by simp
  then have "nj_loop m [a..b] [] = Inr ([] @ map (\<lambda>jj. the (nj m jj)) [a..b])"
    by (rule nj_loop_all)
  moreover have "map (\<lambda>jj. the (nj m jj)) [a..b] = replicate ?n c"
    using assms(1) by (simp add: map_replicate_const [symmetric] del: length_upto)
  ultimately have "weights (init_state m qs a b 1) [a..b] = Inr (replicate ?n (real_of_int c))"
    by (simp add: weights_init del: length_upto)
  moreover have "replicate ?n (real_of_int c) = map ((*) (real_of_int c)) (replicate ?n 1)"
    by simp
  ultimately have cnt: "weights (init_state m qs a b 1) [a..b] =
      Inr (map ((*) (real_of_int c)) (replicate ?n 1))"
    by (simp only:)
  have c: "real_of_int c \<noteq> 0"
    using assms(2) by simp
  show ?thesis
    unfolding spectrum_init [OF all] ord cnt sum.case col_spectrum_scale [OF c] ..
qed

theorem constant_count_modes_witness:
  "spectrum (init linear_regression mrq3 [0, 2] 1 3 0) =
   spectrum (init linear_regression mrq3 [0, 2] 1 3 1)"
proof -
  have "\<forall>jj\<in>set [1..3]. nj mrq3 jj = Some 2"
    by (simp add: upto_1_3 mrq3_def)
  from constant_count_modes [OF this, of 0 "[0, 2]"] show ?thesis by simp
qed

section \<open>The regression routine minimises the weighted squared error\<close>

lemma wsum_nth:
  assumes "length f = length w"
  shows "wsum w f = (\<Sum>i<length w. w ! i * f ! i)"
proof -
  have "sum_list (map2 (*) w f) = (\<Sum>i = 0..<length (map2 (*) w f). map2 (*) w f ! i)"
    by (rule sum_list_sum_nth)
  also have "\<dots> = (\<Sum>i<length w. w ! i * f ! i)"
    using assms by (simp add: lessThan_atLeast0)
  finally show ?thesis
    by (simp add: wsum_def)
qed

lemma sum_list_nth: "sum_list (w :: real list) = (\<Sum>i<length w. w ! i)"
  by (simp add: sum_list_sum_nth lessThan_atLeast0)

lemma wsq_error_expand:
  "wsq_error x y w a b =
     (\<Sum>i<length x. w ! i * (y ! i * y ! i)) - 2 * a * (\<Sum>i<length x. w ! i * (x ! i * y ! i))
       - 2 * b * (\<Sum>i<length x. w ! i * y ! i) + a * a * (\<Sum>i<length x. w ! i * (x ! i * x ! i))
       + 2 * a * b * (\<Sum>i<length x. w ! i * x ! i) + b * b * (\<Sum>i<length x. w ! i)"
proof -
  have "w ! i * (y ! i - (a * x ! i + b))\<^sup>2 =
        w ! i * (y ! i * y ! i) - 2 * a * (w ! i * (x ! i * y ! i)) - 2 * b * (w ! i * y ! i)
          + a * a * (w ! i * (x ! i * x ! i)) + 2 * a * b * (w ! i * x ! i) + b * b * w ! i" for i
    by (simp add: power2_eq_square algebra_simps)
  then show ?thesis
    by (simp add: wsq_error_def sum.distrib sum_subtractf sum_distrib_left)
qed

lemma weighted_square_nonneg:
  assumes "\<forall>i<n. 0 \<le> (w :: real list) ! i"
  shows "0 \<le> d * d * (\<Sum>i<n. w ! i * (x ! i * x ! i)) + 2 * d * e * (\<Sum>i<n. w ! i * x ! i)
            + e * e * (\<Sum>i<n. w ! i)"
proof -
  have "w ! i * (d * x ! i + e)\<^sup>2 =
        d * d * (w ! i * (x ! i * x ! i)) + 2 * d * e * (w ! i * x ! i) + e * e * w ! i" for i
    by (simp add: power2_eq_square algebra_simps)
  then have "(\<Sum>i<n. w ! i * (d * x ! i + e)\<^sup>2) =
        d * d * (\<Sum>i<n. w ! i * (x ! i * x ! i)) + 2 * d * e * (\<Sum>i<n. w ! i * x ! i)
          + e * e * (\<Sum>i<n. w ! i)"
    by (simp add: sum.distrib sum_distrib_left)
  moreover have "0 \<le> (\<Sum>i<n. w ! i * (d * x ! i + e)\<^sup>2)"
    using assms by (intro sum_nonneg) simp
  ultimately show ?thesis by simp
qed

lemma normal_equations:
  fixes S0 S1 S2 T0 T1 :: real
  assumes "S0 * S2 - S1 * S1 \<noteq> 0"
  defines "s \<equiv> (S0 * T1 - S1 * T0) / (S0 * S2 - S1 * S1)"
    and "c \<equiv> (S2 * T0 - S1 * T1) / (S0 * S2 - S1 * S1)"
  shows "s * S2 + c * S1 = T1" and "s * S1 + c * S0 = T0"
proof -
  let ?D = "S0 * S2 - S1 * S1"
  have "s * S2 + c * S1 = ((S0 * T1 - S1 * T0) * S2 + (S2 * T0 - S1 * T1) * S1) / ?D"
    by (simp add: s_def c_def add_divide_distrib)
  also have "(S0 * T1 - S1 * T0) * S2 + (S2 * T0 - S1 * T1) * S1 = ?D * T1"
    by (simp add: algebra_simps)
  finally show "s * S2 + c * S1 = T1"
    using assms(1) by simp
  have "s * S1 + c * S0 = ((S0 * T1 - S1 * T0) * S1 + (S2 * T0 - S1 * T1) * S0) / ?D"
    by (simp add: s_def c_def add_divide_distrib)
  also have "(S0 * T1 - S1 * T0) * S1 + (S2 * T0 - S1 * T1) * S0 = ?D * T0"
    by (simp add: algebra_simps)
  finally show "s * S1 + c * S0 = T0"
    using assms(1) by simp
qed

lemma quadratic_gap:
  fixes S0 S1 S2 T0 T1 Y a b s c :: real
  assumes "s * S2 + c * S1 = T1" and "s * S1 + c * S0 = T0"
  shows "(Y - 2 * a * T1 - 2 * b * T0 + a * a * S2 + 2 * a * b * S1 + b * b * S0)
       - (Y - 2 * s * T1 - 2 * c * T0 + s * s * S2 + 2 * s * c * S1 + c * c * S0)
       = (a - s) * (a - s) * S2 + 2 * (a - s) * (b - c) * S1 + (b - c) * (b - c) * S0"
  unfolding assms [symmetric] by (simp add: algebra_simps)

lemma linear_regression_minimises:
  assumes len: "length y = length x" "length w = length x"
    and pos: "\<forall>i<length x. 0 \<le> w ! i"
    and det: "sum_list w * wsum w (map2 (*) x x) - wsum w x * wsum w x \<noteq> 0"
    and res: "linear_regression x y w = Inr (s, c)"
  shows "wsq_error x y w s c \<le> wsq_error x y w a b"
proof -
  define S0 where "S0 = (\<Sum>i<length x. w ! i)"
  define S1 where "S1 = (\<Sum>i<length x. w ! i * x ! i)"
  define S2 where "S2 = (\<Sum>i<length x. w ! i * (x ! i * x ! i))"
  define T0 where "T0 = (\<Sum>i<length x. w ! i * y ! i)"
  define T1 where "T1 = (\<Sum>i<length x. w ! i * (x ! i * y ! i))"
  define Y where "Y = (\<Sum>i<length x. w ! i * (y ! i * y ! i))"
  have sums: "sum_list w = S0" "wsum w x = S1" "wsum w (map2 (*) x x) = S2"
    "wsum w y = T0" "wsum w (map2 (*) x y) = T1"
    using len by (simp_all add: sum_list_nth wsum_nth S0_def S1_def S2_def T0_def T1_def)
  have D: "S0 * S2 - S1 * S1 \<noteq> 0"
    using det by (simp add: sums)
  have sc: "s = (S0 * T1 - S1 * T0) / (S0 * S2 - S1 * S1)"
    "c = (S2 * T0 - S1 * T1) / (S0 * S2 - S1 * S1)"
    using res by (simp_all add: linear_regression_def Let_def sums split: if_splits)
  have ne: "s * S2 + c * S1 = T1" "s * S1 + c * S0 = T0"
    unfolding sc by (rule normal_equations [OF D])+
  have "wsq_error x y w a b - wsq_error x y w s c =
        (a - s) * (a - s) * S2 + 2 * (a - s) * (b - c) * S1 + (b - c) * (b - c) * S0"
    unfolding wsq_error_expand S0_def [symmetric] S1_def [symmetric] S2_def [symmetric]
      T0_def [symmetric] T1_def [symmetric] Y_def [symmetric]
    by (rule quadratic_gap [OF ne])
  moreover have "0 \<le> (a - s) * (a - s) * S2 + 2 * (a - s) * (b - c) * S1 + (b - c) * (b - c) * S0"
    unfolding S0_def S1_def S2_def by (rule weighted_square_nonneg [OF pos])
  ultimately show ?thesis by simp
qed

end
